theory Spec2Isabelle
  imports Main
begin

section \<open>Python strings and character classes\<close>

text \<open>
  The script \<^verbatim>\<open>scripts/fix_doc_backticks.py\<close> works on Python \<^verbatim>\<open>str\<close> values, which are
  sequences of Unicode code points. A code point is a natural number, a string is a list
  of them. String literals of the script are written as HOL strings and converted by
  \<open>str\<close>.
\<close>

type_synonym pychar = nat
type_synonym pystr = "pychar list"

definition str :: "string \<Rightarrow> pystr" where
  "str cs = map of_char cs"

text \<open>
  \<^verbatim>\<open>str.isspace\<close>, \<^verbatim>\<open>str.lstrip()\<close> and the class \<^verbatim>\<open>\s\<close> of a \<^verbatim>\<open>str\<close> pattern all use the
  same table of whitespace code points: TAB..CR, FS..US, SPACE, NEL, NBSP, U+1680,
  U+2000..U+200A, U+2028, U+2029, U+202F, U+205F and U+3000.
\<close>

definition isspace :: "pychar \<Rightarrow> bool" where
  "isspace c \<longleftrightarrow>
     (9 \<le> c \<and> c \<le> 13) \<or> (28 \<le> c \<and> c \<le> 32) \<or> c = 133 \<or> c = 160 \<or> c = 5760 \<or>
     (8192 \<le> c \<and> c \<le> 8202) \<or> c = 8232 \<or> c = 8233 \<or> c = 8239 \<or> c = 8287 \<or> c = 12288"

text \<open>The atoms of a bracket expression such as \<^verbatim>\<open>[a-zA-Z_]\<close>.\<close>

datatype atom = Range char char | Single char

fun in_atom :: "atom \<Rightarrow> pychar \<Rightarrow> bool" where
  "in_atom (Range lo hi) c \<longleftrightarrow> of_char lo \<le> c \<and> c \<le> of_char hi"
| "in_atom (Single a) c \<longleftrightarrow> c = of_char a"

text \<open>
  What matches one character: \<^verbatim>\<open>\s\<close>, an escaped literal such as \<^verbatim>\<open>\(\<close>, or a bracket
  expression.
\<close>

datatype cls = Space | Lit char | Set "atom list"

fun in_cls :: "cls \<Rightarrow> pychar \<Rightarrow> bool" where
  "in_cls Space c \<longleftrightarrow> isspace c"
| "in_cls (Lit a) c \<longleftrightarrow> c = of_char a"
| "in_cls (Set as) c \<longleftrightarrow> list_ex (\<lambda>a. in_atom a c) as"

section \<open>The regular expressions of the script and their backtracking matcher\<close>

text \<open>
  The three patterns use single characters, greedy repetitions \<^verbatim>\<open>*\<close> and \<^verbatim>\<open>+\<close> of a single
  character, one alternation, and three capturing groups in a row. A pattern is the list
  of its groups, a group the list of its items.
\<close>

datatype item = One cls | Star cls | Plus cls | Alt item item

type_synonym pattern = "item list list"

fun isize :: "item \<Rightarrow> nat" where
  "isize (One c) = 1"
| "isize (Star c) = 1"
| "isize (Plus c) = 3"
| "isize (Alt a b) = Suc (isize a + isize b)"

definition psize :: "item list \<Rightarrow> item list list \<Rightarrow> nat" where
  "psize r gs = sum_list (map isize r) + sum_list (map (\<lambda>g. Suc (sum_list (map isize g))) gs)"

text \<open>
  \<open>rmatch r gs cur done s\<close> matches the rest \<open>r\<close> of the current group and then the
  groups \<open>gs\<close> at the start of \<open>s\<close>, the way Python's engine does: a greedy repetition
  takes as many characters as it can and gives them back one at a time when what follows
  fails; an alternation tries its left branch first. \<open>cur\<close> holds the text the current
  group has taken (reversed), \<open>done\<close> the texts of the groups already closed (latest
  first). The result is the text of every group and the unread rest of \<open>s\<close>, or \<open>None\<close>
  when there is no match at this position.
\<close>

function rmatch ::
  "item list \<Rightarrow> item list list \<Rightarrow> pystr \<Rightarrow> pystr list \<Rightarrow> pystr \<Rightarrow> (pystr list \<times> pystr) option"
where
  "rmatch [] [] cur done s = Some (rev (rev cur # done), s)"
| "rmatch [] (g # gs) cur done s = rmatch g gs [] (rev cur # done) s"
| "rmatch (One c # r) gs cur done [] = None"
| "rmatch (One c # r) gs cur done (x # xs) =
     (if in_cls c x then rmatch r gs (x # cur) done xs else None)"
| "rmatch (Star c # r) gs cur done [] = rmatch r gs cur done []"
| "rmatch (Star c # r) gs cur done (x # xs) =
     (if in_cls c x
      then (case rmatch (Star c # r) gs (x # cur) done xs of
              Some m \<Rightarrow> Some m
            | None \<Rightarrow> rmatch r gs cur done (x # xs))
      else rmatch r gs cur done (x # xs))"
| "rmatch (Plus c # r) gs cur done s = rmatch (One c # Star c # r) gs cur done s"
| "rmatch (Alt a b # r) gs cur done s =
     (case rmatch (a # r) gs cur done s of
        Some m \<Rightarrow> Some m
      | None \<Rightarrow> rmatch (b # r) gs cur done s)"
  by pat_completeness auto
termination
  by (relation "inv_image (less_than <*lex*> less_than)
        (\<lambda>(r, gs, cur, done, s). (length s, psize r gs))")
     (auto simp: psize_def)

definition re_match :: "pattern \<Rightarrow> pystr \<Rightarrow> (pystr list \<times> pystr) option" where
  "re_match p s = (case p of [] \<Rightarrow> Some ([], s) | g # gs \<Rightarrow> rmatch g gs [] [] s)"

text \<open>
  The replacement template \<^verbatim>\<open>r'\1`\2`\3'\<close>: the three groups with a backtick (code point 96)
  between them.
\<close>

definition backtick :: pychar where
  "backtick = 96"

fun expand :: "pystr list \<Rightarrow> pystr" where
  "expand [g1, g2, g3] = g1 @ backtick # g2 @ backtick # g3"
| "expand gs = concat gs"

text \<open>
  \<^verbatim>\<open>re.sub(pattern, repl, line)\<close>: scan from the left; where the pattern matches, emit the
  expanded template and go on after the match; elsewhere copy one character and go on
  after it. A match that takes no character cannot occur with the patterns of the script
  (lemma \<open>re_match_shorter\<close> below); the scan treats it as no match.
\<close>

function re_sub :: "pattern \<Rightarrow> pystr \<Rightarrow> pystr" where
  "re_sub p [] = []"
| "re_sub p (x # xs) =
     (case re_match p (x # xs) of
        Some (gs, rest) \<Rightarrow>
          if length rest < length (x # xs) then expand gs @ re_sub p rest
          else x # re_sub p xs
      | None \<Rightarrow> x # re_sub p xs)"
  by pat_completeness auto
termination
  by (relation "measure (\<lambda>(p, s). length s)") auto

section \<open>\<^verbatim>\<open>fix_doc_line\<close>\<close>

definition pattern1 :: pattern where
  "pattern1 =
     [[One Space],
      [One (Set [Range CHR ''a'' CHR ''z'', Range CHR ''A'' CHR ''Z'', Single CHR ''_'']),
       Star (Set [Range CHR ''a'' CHR ''z'', Range CHR ''A'' CHR ''Z'',
                  Range CHR ''0'' CHR ''9'', Single CHR ''_'']),
       One (Lit CHR ''(''), One (Lit CHR '')'')],
      [One Space]]"

definition pattern2 :: pattern where
  "pattern2 =
     [[One Space],
      [One (Set [Range CHR ''a'' CHR ''z'', Single CHR ''_'']),
       Star (Set [Range CHR ''a'' CHR ''z'', Range CHR ''0'' CHR ''9'', Single CHR ''_'']),
       One (Lit CHR ''_''),
       Plus (Set [Range CHR ''a'' CHR ''z'', Range CHR ''0'' CHR ''9'', Single CHR ''_''])],
      [Alt (One Space)
           (One (Set [Single CHR ''.'', Single CHR '','', Single CHR '';'',
                      Single CHR '')'', Single CHR '']'']))]]"

definition pattern3 :: pattern where
  "pattern3 =
     [[One Space],
      [One (Set [Range CHR ''A'' CHR ''Z'']),
       Star (Set [Range CHR ''a'' CHR ''z'', Range CHR ''A'' CHR ''Z'', Range CHR ''0'' CHR ''9'']),
       One (Set [Range CHR ''A'' CHR ''Z'']),
       Star (Set [Range CHR ''a'' CHR ''z'', Range CHR ''A'' CHR ''Z'', Range CHR ''0'' CHR ''9''])],
      [One Space]]"

definition lstrip :: "pystr \<Rightarrow> pystr" where
  "lstrip s = dropWhile isspace s"

fun startswith :: "pystr \<Rightarrow> pystr \<Rightarrow> bool" where
  "startswith s [] \<longleftrightarrow> True"
| "startswith [] (y # ys) \<longleftrightarrow> False"
| "startswith (x # xs) (y # ys) \<longleftrightarrow> x = y \<and> startswith xs ys"

definition is_doc_line :: "pystr \<Rightarrow> bool" where
  "is_doc_line line \<longleftrightarrow> startswith (lstrip line) (str ''///'')"

definition fix_doc_line :: "pystr \<Rightarrow> pystr" where
  "fix_doc_line line =
     (if \<not> is_doc_line line then line
      else re_sub pattern3 (re_sub pattern2 (re_sub pattern1 line)))"

section \<open>Tokens and boundary characters\<close>

text \<open>
  The character ranges the bracket expressions are made of.
\<close>

definition is_lower :: "pychar \<Rightarrow> bool" where
  "is_lower c \<longleftrightarrow> 97 \<le> c \<and> c \<le> 122"

definition is_upper :: "pychar \<Rightarrow> bool" where
  "is_upper c \<longleftrightarrow> 65 \<le> c \<and> c \<le> 90"

definition is_digit :: "pychar \<Rightarrow> bool" where
  "is_digit c \<longleftrightarrow> 48 \<le> c \<and> c \<le> 57"

definition underscore :: pychar where
  "underscore = 95"

definition ident_char :: "pychar \<Rightarrow> bool" where
  "ident_char c \<longleftrightarrow> is_lower c \<or> is_upper c \<or> is_digit c \<or> c = underscore"

definition snake_char :: "pychar \<Rightarrow> bool" where
  "snake_char c \<longleftrightarrow> is_lower c \<or> is_digit c \<or> c = underscore"

definition alnum_char :: "pychar \<Rightarrow> bool" where
  "alnum_char c \<longleftrightarrow> is_lower c \<or> is_upper c \<or> is_digit c"

text \<open>
  A call-like token: a letter or underscore, then letters, digits and underscores, then
  \<^verbatim>\<open>()\<close>.
\<close>

definition call_token :: "pystr \<Rightarrow> bool" where
  "call_token t \<longleftrightarrow>
     3 \<le> length t \<and> (is_lower (hd t) \<or> is_upper (hd t) \<or> hd t = underscore) \<and>
     list_all ident_char (take (length t - 2) t) \<and> drop (length t - 2) t = str ''()''"

text \<open>
  A snake-case token: it begins with a lowercase letter or an underscore, consists of
  lowercase letters, digits and underscores, and has an underscore that is neither its
  first nor its last character.
\<close>

definition snake_token :: "pystr \<Rightarrow> bool" where
  "snake_token t \<longleftrightarrow>
     t \<noteq> [] \<and> (is_lower (hd t) \<or> hd t = underscore) \<and> list_all snake_char t \<and>
     underscore \<in> set (butlast (tl t))"

text \<open>What may follow a snake-case token: whitespace or one of \<^verbatim>\<open>. , ; ) ]\<close>.\<close>

definition snake_boundary :: "pychar \<Rightarrow> bool" where
  "snake_boundary c \<longleftrightarrow> isspace c \<or> c \<in> set (str ''.,;)]'')"

text \<open>
  A Pascal-case token: it starts with an uppercase letter, consists of letters and digits,
  and has at least two uppercase letters.
\<close>

definition pascal_token :: "pystr \<Rightarrow> bool" where
  "pascal_token t \<longleftrightarrow>
     t \<noteq> [] \<and> is_upper (hd t) \<and> list_all alnum_char t \<and> 2 \<le> length (filter is_upper t)"

text \<open>
  The specification's wording of the snake-case rule asks for an underscore
  ``separating two alphanumeric runs''. \<open>alnum_runs False t\<close> counts the maximal runs of
  characters other than the underscore in \<open>t\<close>; \<open>spec_snake_token\<close> is the token
  condition as the specification words it.
\<close>

fun alnum_runs :: "bool \<Rightarrow> pystr \<Rightarrow> nat" where
  "alnum_runs in_run [] = 0"
| "alnum_runs in_run (c # cs) =
     (if c = underscore then alnum_runs False cs
      else (if in_run then 0 else 1) + alnum_runs True cs)"

definition spec_snake_token :: "pystr \<Rightarrow> bool" where
  "spec_snake_token t \<longleftrightarrow>
     t \<noteq> [] \<and> (is_lower (hd t) \<or> hd t = underscore) \<and> list_all snake_char t \<and>
     2 \<le> alnum_runs False t"

section \<open>What a pattern matches, and what a pass changes\<close>

text \<open>
  \<open>lang r s\<close>: the items \<open>r\<close> match exactly the text \<open>s\<close>, whatever the order in which a
  matcher tries the possibilities.
\<close>

inductive lang :: "item list \<Rightarrow> pystr \<Rightarrow> bool" where
  lang_nil: "lang [] []"
| lang_one: "in_cls c x \<Longrightarrow> lang r xs \<Longrightarrow> lang (One c # r) (x # xs)"
| lang_star_skip: "lang r s \<Longrightarrow> lang (Star c # r) s"
| lang_star_step: "in_cls c x \<Longrightarrow> lang (Star c # r) xs \<Longrightarrow> lang (Star c # r) (x # xs)"
| lang_plus: "lang (One c # Star c # r) s \<Longrightarrow> lang (Plus c # r) s"
| lang_alt_left: "lang (a # r) s \<Longrightarrow> lang (Alt a b # r) s"
| lang_alt_right: "lang (b # r) s \<Longrightarrow> lang (Alt a b # r) s"

text \<open>
  \<open>wrap_rule p tok bnd\<close>: the pattern \<open>p\<close> matches at the start of a text exactly when
  the text starts with one whitespace character, a token satisfying \<open>tok\<close> and one
  character satisfying \<open>bnd\<close>, and these three are its groups. Tokens hold neither
  whitespace nor backticks, a boundary is not a backtick, and whitespace is a boundary.
\<close>

definition wrap_rule :: "pattern \<Rightarrow> (pystr \<Rightarrow> bool) \<Rightarrow> (pychar \<Rightarrow> bool) \<Rightarrow> bool" where
  "wrap_rule p tok bnd \<longleftrightarrow>
     (\<forall>s gs rest. re_match p s = Some (gs, rest) \<longleftrightarrow>
        (\<exists>w t b. gs = [[w], t, [b]] \<and> s = w # t @ b # rest \<and> isspace w \<and> tok t \<and> bnd b)) \<and>
     (\<forall>t. tok t \<longrightarrow> t \<noteq> [] \<and> (\<forall>c\<in>set t. \<not> isspace c \<and> c \<noteq> backtick)) \<and>
     (\<forall>b. bnd b \<longrightarrow> b \<noteq> backtick) \<and>
     (\<forall>b. isspace b \<longrightarrow> bnd b)"

text \<open>
  \<open>ins_bt xs ys\<close>: \<open>ys\<close> is \<open>xs\<close> with backticks inserted, each of them before a character
  of \<open>xs\<close> (none after the last one).
\<close>

inductive ins_bt :: "pystr \<Rightarrow> pystr \<Rightarrow> bool" where
  ins_nil: "ins_bt [] []"
| ins_keep: "ins_bt xs ys \<Longrightarrow> ins_bt (x # xs) (x # ys)"
| ins_tick: "ins_bt xs ys \<Longrightarrow> xs \<noteq> [] \<Longrightarrow> ins_bt xs (backtick # ys)"

text \<open>
  \<open>wraps xs ys\<close>: \<open>ys\<close> is \<open>xs\<close> with some non-empty tokens \<open>t\<close> put between two
  backticks, the character \<open>w\<close> before and the character \<open>b\<close> after each of them kept.
\<close>

inductive wraps :: "pystr \<Rightarrow> pystr \<Rightarrow> bool" where
  wraps_nil: "wraps [] []"
| wraps_keep: "wraps xs ys \<Longrightarrow> wraps (x # xs) (x # ys)"
| wraps_token: "wraps xs ys \<Longrightarrow> t \<noteq> [] \<Longrightarrow>
     wraps (w # t @ b # xs) (w # backtick # t @ backtick # b # ys)"

text \<open>\<open>nohit p s\<close>: the pattern \<open>p\<close> matches at no position of \<open>s\<close>.\<close>

fun nohit :: "pattern \<Rightarrow> pystr \<Rightarrow> bool" where
  "nohit p [] \<longleftrightarrow> True"
| "nohit p (x # xs) \<longleftrightarrow> re_match p (x # xs) = None \<and> nohit p xs"

text \<open>
  \<open>noshare p s\<close>: no match of \<open>p\<close> in \<open>s\<close> ends with the character another match of \<open>p\<close>
  begins with, that is, no two tokens of the rule are separated by a single whitespace
  character that would have to serve as the boundary of both.
\<close>

fun noshare :: "pattern \<Rightarrow> pystr \<Rightarrow> bool" where
  "noshare p [] \<longleftrightarrow> True"
| "noshare p (x # xs) \<longleftrightarrow>
     (case re_match p (x # xs) of
        None \<Rightarrow> True
      | Some (gs, rest) \<Rightarrow> re_match p (last gs @ rest) = None) \<and>
     noshare p xs"

section \<open>Reading and rewriting the files\<close>

text \<open>
  A file holds text; the model keeps it decoded, as the sequence of its characters with the
  line terminators as they are on disk. \<^verbatim>\<open>open(file_path, 'r')\<close> reads in text mode with
  universal newlines: \<^verbatim>\<open>\r\n\<close> and a lone \<^verbatim>\<open>\r\<close> arrive as \<^verbatim>\<open>\n\<close> (code points 13 and 10).
\<close>

fun universal_newlines :: "pystr \<Rightarrow> pystr" where
  "universal_newlines [] = []"
| "universal_newlines [c] = [if c = 13 then 10 else c]"
| "universal_newlines (c # d # cs) =
     (if c = 13 \<and> d = 10 then 10 # universal_newlines cs
      else if c = 13 then 10 # universal_newlines (d # cs)
      else c # universal_newlines (d # cs))"

text \<open>
  \<^verbatim>\<open>f.readlines()\<close>: the text cut after every \<^verbatim>\<open>\n\<close>, each line keeping its \<^verbatim>\<open>\n\<close>; a last line
  without \<^verbatim>\<open>\n\<close> is a line too. \<open>cur\<close> is the line being read, reversed.
\<close>

fun split_lines :: "pystr \<Rightarrow> pystr \<Rightarrow> pystr list" where
  "split_lines cur [] = (if cur = [] then [] else [rev cur])"
| "split_lines cur (c # cs) =
     (if c = 10 then rev (c # cur) # split_lines [] cs else split_lines (c # cur) cs)"

definition readlines :: "pystr \<Rightarrow> pystr list" where
  "readlines text = split_lines [] (universal_newlines text)"

text \<open>
  \<^verbatim>\<open>open(file_path, 'w')\<close> writes in text mode: every \<^verbatim>\<open>\n\<close> goes to disk as \<^verbatim>\<open>os.linesep\<close>, which
  is a parameter of the model (\<^verbatim>\<open>\n\<close> on POSIX, \<^verbatim>\<open>\r\n\<close> on Windows). \<^verbatim>\<open>f.writelines\<close> writes
  the lines one after the other.
\<close>

definition write_text :: "pystr \<Rightarrow> pystr \<Rightarrow> pystr" where
  "write_text linesep s = concat (map (\<lambda>c. if c = 10 then linesep else [c]) s)"

definition writelines :: "pystr \<Rightarrow> pystr list \<Rightarrow> pystr" where
  "writelines linesep new_lines = write_text linesep (concat new_lines)"

text \<open>
  The line terminators of a text on disk, in order: each is \<^verbatim>\<open>\r\n\<close>, \<^verbatim>\<open>\r\<close> or \<^verbatim>\<open>\n\<close>. They are
  the line-terminator convention of the file.
\<close>

fun line_terminators :: "pystr \<Rightarrow> pystr list" where
  "line_terminators [] = []"
| "line_terminators [c] = (if c = 13 \<or> c = 10 then [[c]] else [])"
| "line_terminators (c # d # cs) =
     (if c = 13 \<and> d = 10 then [13, 10] # line_terminators cs
      else if c = 13 \<or> c = 10 then [c] # line_terminators (d # cs)
      else line_terminators (d # cs))"

text \<open>
  The inner loop of the script: every line goes through \<open>fix_doc_line\<close>, the result is
  appended to \<open>new_lines\<close>, and \<open>file_changes\<close> counts the lines that came back different.
\<close>

fun process_lines :: "pystr list \<Rightarrow> pystr list \<Rightarrow> nat \<Rightarrow> pystr list \<times> nat" where
  "process_lines [] new_lines file_changes = (new_lines, file_changes)"
| "process_lines (line # lines) new_lines file_changes =
     (let new_line = fix_doc_line line
      in process_lines lines (new_lines @ [new_line])
           (if new_line \<noteq> line then file_changes + 1 else file_changes))"

text \<open>
  The state of a run: the files, the paths opened for writing so far, what was printed, and
  the global counter \<open>total_changes\<close>. Opening a path that is not there raises; a raise
  ends the run.
\<close>

type_synonym path = string

datatype report = Updated path nat | Total nat

datatype error = FileNotFoundError path

record run_state =
  files :: "path \<rightharpoonup> pystr"
  writes :: "path list"
  printed :: "report list"
  total_changes :: nat

definition process_file :: "pystr \<Rightarrow> path \<Rightarrow> run_state \<Rightarrow> error + run_state" where
  "process_file linesep file_path st =
     (case files st file_path of
        None \<Rightarrow> Inl (FileNotFoundError file_path)
      | Some content \<Rightarrow>
          (case process_lines (readlines content) [] 0 of
             (new_lines, file_changes) \<Rightarrow>
               if file_changes > 0
               then Inr (st\<lparr>files := (files st)(file_path \<mapsto> writelines linesep new_lines),
                            writes := writes st @ [file_path],
                            printed := printed st @ [Updated file_path file_changes],
                            total_changes := total_changes st + file_changes\<rparr>)
               else Inr st))"

fun process_files :: "pystr \<Rightarrow> path list \<Rightarrow> run_state \<Rightarrow> error + run_state" where
  "process_files linesep [] st = Inr st"
| "process_files linesep (file_path # rust_files) st =
     (case process_file linesep file_path st of
        Inl e \<Rightarrow> Inl e
      | Inr st' \<Rightarrow> process_files linesep rust_files st')"

text \<open>
  The script: \<open>rust_files\<close> is what \<^verbatim>\<open>glob.glob('src/**/*.rs', recursive=True)\<close> returned.
\<close>

definition main :: "pystr \<Rightarrow> path list \<Rightarrow> (path \<rightharpoonup> pystr) \<Rightarrow> error + run_state" where
  "main linesep rust_files fs =
     (case process_files linesep rust_files
             \<lparr>files = fs, writes = [], printed = [], total_changes = 0\<rparr> of
        Inl e \<Rightarrow> Inl e
      | Inr st \<Rightarrow> Inr (st\<lparr>printed := printed st @ [Total (total_changes st)]\<rparr>))"

text \<open>
  \<open>lines_ok ls\<close>: what \<^verbatim>\<open>readlines\<close> returns: no line is empty, every line but the last ends
  with \<^verbatim>\<open>\n\<close>, and no line has a \<^verbatim>\<open>\n\<close> before its last character.
\<close>

fun lines_ok :: "pystr list \<Rightarrow> bool" where
  "lines_ok [] \<longleftrightarrow> True"
| "lines_ok [l] \<longleftrightarrow> l \<noteq> [] \<and> 10 \<notin> set (butlast l)"
| "lines_ok (l # m # ls) \<longleftrightarrow> l \<noteq> [] \<and> last l = 10 \<and> 10 \<notin> set (butlast l) \<and> lines_ok (m # ls)"

text \<open>\<open>file_changed fs file_path\<close>: the file is there and \<open>fix_doc_line\<close> changes one of its lines.\<close>

definition file_changed :: "(path \<rightharpoonup> pystr) \<Rightarrow> path \<Rightarrow> bool" where
  "file_changed fs file_path \<longleftrightarrow>
     (case fs file_path of
        None \<Rightarrow> False
      | Some content \<Rightarrow> \<exists>line\<in>set (readlines content). fix_doc_line line \<noteq> line)"

section \<open>The scan of a substitution pass\<close>

text \<open>
  \<open>reaches p s u\<close>: the scan of \<open>re_sub p s\<close> arrives at the rest \<open>u\<close> of \<open>s\<close>. It starts
  at \<open>s\<close>; from a rest where \<open>p\<close> does not match it goes on one character later, and from
  a rest where \<open>p\<close> matches it goes on after the match.
\<close>

inductive reaches :: "pattern \<Rightarrow> pystr \<Rightarrow> pystr \<Rightarrow> bool" for p :: pattern and s :: pystr where
  reaches_start: "reaches p s s"
| reaches_copy: "reaches p s (x # xs) \<Longrightarrow> re_match p (x # xs) = None \<Longrightarrow> reaches p s xs"
| reaches_match: "reaches p s (x # xs) \<Longrightarrow> re_match p (x # xs) = Some (gs, rest) \<Longrightarrow>
     length rest < length (x # xs) \<Longrightarrow> reaches p s rest"
| reaches_empty: "reaches p s (x # xs) \<Longrightarrow> re_match p (x # xs) = Some (gs, rest) \<Longrightarrow>
     \<not> length rest < length (x # xs) \<Longrightarrow> reaches p s xs"

text \<open>\<open>skipped p pre u\<close>: in the text \<open>pre @ u\<close>, the pattern matches at no position of \<open>pre\<close>.\<close>

fun skipped :: "pattern \<Rightarrow> pystr \<Rightarrow> pystr \<Rightarrow> bool" where
  "skipped p [] u \<longleftrightarrow> True"
| "skipped p (x # xs) u \<longleftrightarrow> re_match p (x # xs @ u) = None \<and> skipped p xs u"

section \<open>The matcher finds a match exactly when there is one\<close>

text \<open>
  Whatever \<open>rmatch\<close> returns is a match in the sense of \<open>lang\<close>, group by group, and
  where the groups can match a prefix of the text, \<open>rmatch\<close> does not fail.
\<close>

lemma rmatch_sound:
  "rmatch r gs cur done s = Some (res, rest) \<Longrightarrow>
   \<exists>a as. lang r a \<and> list_all2 lang gs as \<and> s = a @ concat as @ rest \<and>
          res = rev done @ (rev cur @ a) # as"
proof (induction r gs cur "done" s arbitrary: res rest rule: rmatch.induct)
  case (1 cur "done" s)
  then show ?case by (auto intro: lang.intros)
next
  case (2 g gs cur "done" s)
  from 2 obtain a as where "lang g a" "list_all2 lang gs as" "s = a @ concat as @ rest"
    "res = rev (rev cur # done) @ (rev [] @ a) # as"
    by fastforce
  then show ?case
    by (intro exI [of _ "[]"] exI [of _ "a # as"]) (simp add: lang_nil)
next
  case (3 c r gs cur "done")
  then show ?case by simp
next
  case (4 c r gs cur "done" x xs)
  then have cx: "in_cls c x" and m: "rmatch r gs (x # cur) done xs = Some (res, rest)"
    by (auto split: if_splits)
  from 4(1) [OF cx m] obtain a as where "lang r a" "list_all2 lang gs as"
    "xs = a @ concat as @ rest" "res = rev done @ (rev (x # cur) @ a) # as"
    by blast
  with cx show ?case
    by (intro exI [of _ "x # a"] exI [of _ as]) (simp add: lang_one)
next
  case (5 c r gs cur "done")
  then show ?case by (fastforce intro: lang_star_skip)
next
  case (6 c r gs cur "done" x xs)
  show ?case
  proof (cases "in_cls c x")
    case False
    with 6 show ?thesis by (fastforce intro: lang_star_skip)
  next
    case True
    show ?thesis
    proof (cases "rmatch (Star c # r) gs (x # cur) done xs")
      case None
      with True 6 show ?thesis by (fastforce intro: lang_star_skip)
    next
      case (Some m)
      with True "6.prems" have m: "rmatch (Star c # r) gs (x # cur) done xs = Some (res, rest)"
        by simp
      from "6.IH"(1) [OF True m] obtain a as where "lang (Star c # r) a" "list_all2 lang gs as"
        "xs = a @ concat as @ rest" "res = rev done @ (rev (x # cur) @ a) # as"
        by blast
      with True show ?thesis
        by (intro exI [of _ "x # a"] exI [of _ as]) (simp add: lang_star_step)
    qed
  qed
next
  case (7 c r gs cur "done" s)
  then show ?case by (fastforce intro: lang_plus)
next
  case (8 a b r gs cur "done" s)
  then show ?case by (fastforce intro: lang_alt_left lang_alt_right split: option.splits)
qed

lemma rmatch_complete_aux:
  assumes IH: "\<And>cur done. rmatch [] gs cur done (concat as @ rest) \<noteq> None"
  shows "lang r a \<Longrightarrow> rmatch r gs cur done (a @ concat as @ rest) \<noteq> None"
proof (induction r a arbitrary: cur "done" rule: lang.induct)
  case lang_nil
  then show ?case using IH by simp
next
  case (lang_star_skip r s c)
  define t where "t = s @ concat as @ rest"
  have "rmatch r gs cur done t \<noteq> None"
    unfolding t_def by (rule lang_star_skip.IH)
  then have "rmatch (Star c # r) gs cur done t \<noteq> None"
    by (cases t) (simp_all split: option.splits)
  then show ?case by (simp add: t_def)
next
  case (lang_star_step c x r xs)
  from lang_star_step.IH [of "x # cur" "done"] lang_star_step.hyps(1)
  show ?case by (auto split: option.splits)
next
  case (lang_one c x r xs)
  from lang_one.IH [of "x # cur" "done"] lang_one.hyps(1) show ?case by simp
next
  case (lang_plus c r s)
  from lang_plus.IH [of cur "done"] show ?case by simp
next
  case (lang_alt_left a r s b)
  from lang_alt_left.IH [of cur "done"] show ?case by (auto split: option.splits)
next
  case (lang_alt_right b r s a)
  from lang_alt_right.IH [of cur "done"] show ?case by (auto split: option.splits)
qed

lemma rmatch_complete:
  "list_all2 lang gs as \<Longrightarrow> lang r a \<Longrightarrow> rmatch r gs cur done (a @ concat as @ rest) \<noteq> None"
proof (induction gs as arbitrary: r a cur "done" rule: list_all2_induct)
  case Nil
  have "rmatch [] [] cur' done' (concat [] @ rest) \<noteq> None" for cur' done'
    by simp
  from rmatch_complete_aux [of "[]" "[]" rest, OF this Nil]
  show ?case .
next
  case (Cons g gs b bs)
  have "rmatch [] (g # gs) cur' done' (concat (b # bs) @ rest) \<noteq> None" for cur' done'
    using Cons.IH [OF Cons.hyps(1), of "[]" "rev cur' # done'"] by simp
  from rmatch_complete_aux [of "g # gs" "b # bs" rest, OF this Cons.prems]
  show ?case .
qed

lemmas char_defs = is_lower_def is_upper_def is_digit_def underscore_def ident_char_def
  snake_char_def alnum_char_def

inductive_simps lang_Nil_iff: "lang [] s"

inductive_simps lang_One_iff: "lang (One c # r) s"

inductive_simps lang_Plus_iff: "lang (Plus c # r) s"

inductive_simps lang_Alt_iff: "lang (Alt a b # r) s"

lemma lang_Star_run: "list_all (in_cls c) a \<Longrightarrow> lang r b \<Longrightarrow> lang (Star c # r) (a @ b)"
  by (induction a) (auto intro: lang.intros)

lemma lang_Star_split:
  "lang q s \<Longrightarrow> q = Star c # r \<Longrightarrow> \<exists>a b. s = a @ b \<and> list_all (in_cls c) a \<and> lang r b"
proof (induction q s rule: lang.induct)
  case (lang_star_skip r' s c')
  then have "s = [] @ s \<and> list_all (in_cls c) [] \<and> lang r s" by simp
  then show ?case by blast
next
  case (lang_star_step c' x r' xs)
  then obtain a b where "xs = a @ b" "list_all (in_cls c) a" "lang r b" by auto
  with lang_star_step have "x # xs = (x # a) @ b \<and> list_all (in_cls c) (x # a) \<and> lang r b"
    by simp
  then show ?case by blast
qed simp_all

lemma lang_Star_iff:
  "lang (Star c # r) s \<longleftrightarrow> (\<exists>a b. s = a @ b \<and> list_all (in_cls c) a \<and> lang r b)"
  using lang_Star_split lang_Star_run by blast

lemma re_match3_sound:
  assumes "re_match [g1, g2, g3] s = Some (gs, rest)"
  shows "\<exists>a1 a2 a3. lang g1 a1 \<and> lang g2 a2 \<and> lang g3 a3 \<and> gs = [a1, a2, a3] \<and>
           s = a1 @ a2 @ a3 @ rest"
proof -
  from assms have "rmatch g1 [g2, g3] [] [] s = Some (gs, rest)"
    by (simp add: re_match_def)
  from rmatch_sound [OF this] obtain a as where
    *: "lang g1 a" "list_all2 lang [g2, g3] as" "s = a @ concat as @ rest" "gs = a # as"
    by auto
  from *(2) obtain a2 a3 where "as = [a2, a3]" "lang g2 a2" "lang g3 a3"
    by (auto simp: list_all2_Cons1)
  with * show ?thesis by auto
qed

lemma re_match3_complete:
  assumes "lang g1 a1" "lang g2 a2" "lang g3 a3"
  shows "re_match [g1, g2, g3] (a1 @ a2 @ a3 @ rest) \<noteq> None"
proof -
  have "list_all2 lang [g2, g3] [a2, a3]" using assms by simp
  from rmatch_complete [OF this assms(1), of "[]" "[]" rest]
  show ?thesis by (simp add: re_match_def)
qed

section \<open>What the three patterns match\<close>

text \<open>
  Each pattern matches one whitespace character, one token and one boundary character.
  The boundary character cannot occur inside the token, so the token taken is the whole
  run and the match at a position is unique.
\<close>

lemma run_unique:
  "list_all P t \<Longrightarrow> list_all P t' \<Longrightarrow> \<not> P b \<Longrightarrow> \<not> P b' \<Longrightarrow> t @ b # r = t' @ b' # r' \<Longrightarrow>
   t = t' \<and> b = b' \<and> r = r'"
proof (induction t arbitrary: t')
  case Nil
  then show ?case by (cases t') auto
next
  case (Cons x t)
  then show ?case by (cases t') auto
qed

lemma re_match3_iff:
  assumes g1: "\<And>a. lang g1 a \<longleftrightarrow> (\<exists>w. a = [w] \<and> isspace w)"
    and g2: "\<And>a. lang g2 a \<longleftrightarrow> tok a"
    and g3: "\<And>a. lang g3 a \<longleftrightarrow> (\<exists>b. a = [b] \<and> bnd b)"
    and uniq: "\<And>t b r t' b' r'. tok t \<Longrightarrow> bnd b \<Longrightarrow> tok t' \<Longrightarrow> bnd b' \<Longrightarrow>
                 t @ b # r = t' @ b' # r' \<Longrightarrow> t = t' \<and> b = b' \<and> r = r'"
  shows "re_match [g1, g2, g3] s = Some (gs, rest) \<longleftrightarrow>
         (\<exists>w t b. gs = [[w], t, [b]] \<and> s = w # t @ b # rest \<and> isspace w \<and> tok t \<and> bnd b)"
proof
  assume "re_match [g1, g2, g3] s = Some (gs, rest)"
  from re_match3_sound [OF this] show
    "\<exists>w t b. gs = [[w], t, [b]] \<and> s = w # t @ b # rest \<and> isspace w \<and> tok t \<and> bnd b"
    by (auto simp: g1 g2 g3)
next
  assume "\<exists>w t b. gs = [[w], t, [b]] \<and> s = w # t @ b # rest \<and> isspace w \<and> tok t \<and> bnd b"
  then obtain w t b where *: "gs = [[w], t, [b]]" "s = w # t @ b # rest" "isspace w" "tok t" "bnd b"
    by blast
  have "lang g1 [w]" "lang g2 t" "lang g3 [b]"
    using * by (simp_all add: g1 g2 g3)
  from re_match3_complete [OF this, of rest] obtain gs' rest'
    where m: "re_match [g1, g2, g3] s = Some (gs', rest')"
    using * by auto
  from re_match3_sound [OF m] obtain w' t' b' where
    **: "gs' = [[w'], t', [b']]" "s = w' # t' @ b' # rest'" "isspace w'" "tok t'" "bnd b'"
    by (auto simp: g1 g2 g3)
  from * ** have "w = w'" and "t @ b # rest = t' @ b' # rest'" by simp_all
  with uniq [OF *(4,5) **(4,5)] have "t = t'" "b = b'" "rest = rest'" by simp_all
  with m * ** \<open>w = w'\<close> show "re_match [g1, g2, g3] s = Some (gs, rest)" by simp
qed

lemma lang_space: "lang [One Space] a \<longleftrightarrow> (\<exists>w. a = [w] \<and> isspace w)"
  by (auto simp: lang_One_iff lang_Nil_iff)

lemma lang_snake_boundary:
  "lang [Alt (One Space)
           (One (Set [Single CHR ''.'', Single CHR '','', Single CHR '';'',
                      Single CHR '')'', Single CHR '']'']))] a \<longleftrightarrow>
   (\<exists>b. a = [b] \<and> snake_boundary b)"
  by (auto simp: lang_Alt_iff lang_One_iff lang_Nil_iff snake_boundary_def str_def)

lemma lang_Star_all: "list_all (in_cls c) a \<Longrightarrow> lang [Star c] a"
  using lang_Star_run [of c a "[]" "[]"] by (simp add: lang_nil)

lemma in_ident_start:
  "in_cls (Set [Range CHR ''a'' CHR ''z'', Range CHR ''A'' CHR ''Z'', Single CHR ''_'']) c \<longleftrightarrow>
   is_lower c \<or> is_upper c \<or> c = underscore"
  by (auto simp: char_defs)

lemma in_ident_char:
  "in_cls (Set [Range CHR ''a'' CHR ''z'', Range CHR ''A'' CHR ''Z'',
                Range CHR ''0'' CHR ''9'', Single CHR ''_'']) = ident_char"
  by (rule ext) (auto simp: char_defs)

lemma in_snake_start:
  "in_cls (Set [Range CHR ''a'' CHR ''z'', Single CHR ''_'']) c \<longleftrightarrow> is_lower c \<or> c = underscore"
  by (auto simp: char_defs)

lemma in_snake_char:
  "in_cls (Set [Range CHR ''a'' CHR ''z'', Range CHR ''0'' CHR ''9'', Single CHR ''_''])
     = snake_char"
  by (rule ext) (auto simp: char_defs)

lemma in_underscore: "in_cls (Lit CHR ''_'') c \<longleftrightarrow> c = underscore"
  by (simp add: underscore_def)

lemma in_upper: "in_cls (Set [Range CHR ''A'' CHR ''Z'']) = is_upper"
  by (rule ext) (auto simp: char_defs)

lemma in_alnum_char:
  "in_cls (Set [Range CHR ''a'' CHR ''z'', Range CHR ''A'' CHR ''Z'', Range CHR ''0'' CHR ''9''])
     = alnum_char"
  by (rule ext) (auto simp: char_defs)

lemma in_parens: "in_cls (Lit CHR ''('') c \<longleftrightarrow> c = 40" "in_cls (Lit CHR '')'') c \<longleftrightarrow> c = 41"
  by simp_all

lemmas in_cls_simps = in_ident_start in_ident_char in_snake_start in_snake_char in_underscore
  in_upper in_alnum_char in_parens

lemma lang_call_shape:
  "lang [One (Set [Range CHR ''a'' CHR ''z'', Range CHR ''A'' CHR ''Z'', Single CHR ''_'']),
       Star (Set [Range CHR ''a'' CHR ''z'', Range CHR ''A'' CHR ''Z'',
                  Range CHR ''0'' CHR ''9'', Single CHR ''_'']),
       One (Lit CHR ''(''), One (Lit CHR '')'')] a \<longleftrightarrow>
   (\<exists>c m. a = c # m @ [40, 41] \<and> (is_lower c \<or> is_upper c \<or> c = underscore) \<and>
          list_all ident_char m)"
  unfolding lang_One_iff lang_Star_iff lang_Nil_iff in_cls_simps
  by (rule iffI; clarsimp; blast)

lemma lang_snake_shape:
  "lang [One (Set [Range CHR ''a'' CHR ''z'', Single CHR ''_'']),
       Star (Set [Range CHR ''a'' CHR ''z'', Range CHR ''0'' CHR ''9'', Single CHR ''_'']),
       One (Lit CHR ''_''),
       Plus (Set [Range CHR ''a'' CHR ''z'', Range CHR ''0'' CHR ''9'', Single CHR ''_''])] a \<longleftrightarrow>
   (\<exists>c m x n. a = c # m @ underscore # x # n \<and> (is_lower c \<or> c = underscore) \<and>
          list_all snake_char m \<and> snake_char x \<and> list_all snake_char n)"
  unfolding lang_One_iff lang_Star_iff lang_Plus_iff lang_Nil_iff in_cls_simps
  by (rule iffI; clarsimp; blast)

lemma lang_pascal_shape:
  "lang [One (Set [Range CHR ''A'' CHR ''Z'']),
       Star (Set [Range CHR ''a'' CHR ''z'', Range CHR ''A'' CHR ''Z'', Range CHR ''0'' CHR ''9'']),
       One (Set [Range CHR ''A'' CHR ''Z'']),
       Star (Set [Range CHR ''a'' CHR ''z'', Range CHR ''A'' CHR ''Z'', Range CHR ''0'' CHR ''9''])] a \<longleftrightarrow>
   (\<exists>c m u n. a = c # m @ u # n \<and> is_upper c \<and> list_all alnum_char m \<and> is_upper u \<and>
          list_all alnum_char n)"
  unfolding lang_One_iff lang_Star_iff lang_Nil_iff in_cls_simps
  by (rule iffI; clarsimp; blast)

lemma call_token_shape:
  "call_token t \<longleftrightarrow>
   (\<exists>c m. t = c # m @ [40, 41] \<and> (is_lower c \<or> is_upper c \<or> c = underscore) \<and>
          list_all ident_char m)"
proof
  assume ct: "call_token t"
  define n where "n = length t - 2"
  from ct have n: "Suc n < length t" "0 < n" and dr: "drop n t = [40, 41]"
    and ta: "list_all ident_char (take n t)"
    and hd: "is_lower (hd t) \<or> is_upper (hd t) \<or> hd t = underscore"
    by (auto simp: call_token_def n_def str_def)
  from n obtain c m where cm: "take n t = c # m"
    by (cases "take n t") auto
  have t: "t = take n t @ drop n t" by simp
  then have "t = c # m @ [40, 41]" using cm dr by simp
  moreover from this hd have "is_lower c \<or> is_upper c \<or> c = underscore" by simp
  moreover from ta cm have "list_all ident_char m" by simp
  ultimately show "\<exists>c m. t = c # m @ [40, 41] \<and> (is_lower c \<or> is_upper c \<or> c = underscore) \<and>
          list_all ident_char m" by blast
next
  assume "\<exists>c m. t = c # m @ [40, 41] \<and> (is_lower c \<or> is_upper c \<or> c = underscore) \<and>
          list_all ident_char m"
  then show "call_token t"
    by (auto simp: call_token_def str_def ident_char_def)
qed

lemma snake_token_shape:
  "snake_token t \<longleftrightarrow>
   (\<exists>c m x n. t = c # m @ underscore # x # n \<and> (is_lower c \<or> c = underscore) \<and>
          list_all snake_char m \<and> snake_char x \<and> list_all snake_char n)"
proof
  assume st: "snake_token t"
  then obtain c r where t: "t = c # r" and c: "is_lower c \<or> c = underscore"
    and all: "list_all snake_char r" and us: "underscore \<in> set (butlast r)"
    by (cases t) (auto simp: snake_token_def)
  from us have "r \<noteq> []" by auto
  then have r: "r = butlast r @ [last r]" by simp
  from us obtain m k where bl: "butlast r = m @ underscore # k"
    by (auto dest: split_list)
  obtain x n where xn: "k @ [last r] = x # n"
    by (cases "k @ [last r]") auto
  from r bl xn have r': "r = m @ underscore # x # n" by (metis append.assoc append_Cons)
  with all have "list_all snake_char m" "snake_char x" "list_all snake_char n" by simp_all
  with t c r' show "\<exists>c m x n. t = c # m @ underscore # x # n \<and> (is_lower c \<or> c = underscore) \<and>
          list_all snake_char m \<and> snake_char x \<and> list_all snake_char n" by blast
next
  assume "\<exists>c m x n. t = c # m @ underscore # x # n \<and> (is_lower c \<or> c = underscore) \<and>
          list_all snake_char m \<and> snake_char x \<and> list_all snake_char n"
  then obtain c m x n where t: "t = c # m @ underscore # x # n"
    and *: "is_lower c \<or> c = underscore" "list_all snake_char m" "snake_char x"
      "list_all snake_char n" by blast
  have "butlast (m @ underscore # x # n) = m @ underscore # butlast (x # n)"
    by (simp add: butlast_append)
  then have "underscore \<in> set (butlast (tl t))" using t by simp
  with t * show "snake_token t"
    by (auto simp: snake_token_def snake_char_def)
qed

lemma pascal_token_shape:
  "pascal_token t \<longleftrightarrow>
   (\<exists>c m u n. t = c # m @ u # n \<and> is_upper c \<and> list_all alnum_char m \<and> is_upper u \<and>
          list_all alnum_char n)"
proof
  assume pt: "pascal_token t"
  then obtain c r where t: "t = c # r" and c: "is_upper c"
    and all: "list_all alnum_char r" and two: "1 \<le> length (filter is_upper r)"
    by (cases t) (auto simp: pascal_token_def)
  from two have "filter is_upper r \<noteq> []" by auto
  then obtain u where "u \<in> set r" "is_upper u"
    by (metis filter_False)
  then obtain m n where r: "r = m @ u # n" by (auto dest: split_list)
  with all have "list_all alnum_char m" "list_all alnum_char n" by simp_all
  with t c r \<open>is_upper u\<close> show "\<exists>c m u n. t = c # m @ u # n \<and> is_upper c \<and>
     list_all alnum_char m \<and> is_upper u \<and> list_all alnum_char n" by blast
next
  assume "\<exists>c m u n. t = c # m @ u # n \<and> is_upper c \<and> list_all alnum_char m \<and> is_upper u \<and>
          list_all alnum_char n"
  then show "pascal_token t"
    by (auto simp: pascal_token_def alnum_char_def)
qed

lemma ident_char_plain: "ident_char c \<Longrightarrow> \<not> isspace c \<and> c \<noteq> backtick \<and> c \<noteq> 40"
  by (auto simp: char_defs isspace_def backtick_def)

lemma snake_char_ident: "snake_char c \<Longrightarrow> ident_char c"
  by (auto simp: snake_char_def ident_char_def)

lemma alnum_char_ident: "alnum_char c \<Longrightarrow> ident_char c"
  by (auto simp: alnum_char_def ident_char_def)

lemma snake_boundary_plain: "snake_boundary b \<Longrightarrow> \<not> ident_char b \<and> b \<noteq> backtick"
  by (auto simp: snake_boundary_def str_def char_defs isspace_def backtick_def)

lemma isspace_plain: "isspace b \<Longrightarrow> \<not> ident_char b \<and> b \<noteq> backtick"
  by (auto simp: char_defs isspace_def backtick_def)

lemma call_token_plain:
  assumes "call_token t" shows "t \<noteq> [] \<and> (\<forall>c\<in>set t. \<not> isspace c \<and> c \<noteq> backtick)"
proof -
  from assms obtain c m where t: "t = c # m @ [40, 41]" and c: "ident_char c"
    and m: "list_all ident_char m"
    by (auto simp: call_token_shape ident_char_def)
  have "\<not> isspace 40 \<and> 40 \<noteq> backtick \<and> \<not> isspace 41 \<and> 41 \<noteq> backtick"
    by (simp add: isspace_def backtick_def)
  with t c m show ?thesis
    by (auto simp: list_all_iff dest: ident_char_plain)
qed

lemma snake_token_plain:
  assumes "snake_token t" shows "t \<noteq> [] \<and> (\<forall>c\<in>set t. \<not> isspace c \<and> c \<noteq> backtick)"
  using assms by (auto simp: snake_token_def list_all_iff dest!: snake_char_ident ident_char_plain)

lemma pascal_token_plain:
  assumes "pascal_token t" shows "t \<noteq> [] \<and> (\<forall>c\<in>set t. \<not> isspace c \<and> c \<noteq> backtick)"
  using assms by (auto simp: pascal_token_def list_all_iff dest!: alnum_char_ident ident_char_plain)

lemma call_token_unique:
  assumes "call_token t" "isspace b" "call_token t'" "isspace b'" "t @ b # r = t' @ b' # r'"
  shows "t = t' \<and> b = b' \<and> r = r'"
proof -
  from assms(1) obtain c m where t: "t = (c # m) @ [40, 41]" and m: "list_all ident_char (c # m)"
    by (auto simp: call_token_shape ident_char_def)
  from assms(3) obtain c' m' where t': "t' = (c' # m') @ [40, 41]"
    and m': "list_all ident_char (c' # m')"
    by (auto simp: call_token_shape ident_char_def)
  have n: "\<not> ident_char 40" by (simp add: char_defs)
  from assms(5) t t' have "(c # m) @ 40 # (41 # b # r) = (c' # m') @ 40 # (41 # b' # r')"
    by simp
  from run_unique [OF m m' n n this] t t' show ?thesis by simp
qed

lemma snake_token_unique:
  assumes "snake_token t" "snake_boundary b" "snake_token t'" "snake_boundary b'"
    "t @ b # r = t' @ b' # r'"
  shows "t = t' \<and> b = b' \<and> r = r'"
proof -
  have "list_all ident_char t" "list_all ident_char t'"
    using assms(1,3) by (auto simp: snake_token_def list_all_iff intro: snake_char_ident)
  moreover have "\<not> ident_char b" "\<not> ident_char b'"
    using assms(2,4) by (auto dest: snake_boundary_plain)
  ultimately show ?thesis using assms(5) by (rule run_unique)
qed

lemma pascal_token_unique:
  assumes "pascal_token t" "isspace b" "pascal_token t'" "isspace b'"
    "t @ b # r = t' @ b' # r'"
  shows "t = t' \<and> b = b' \<and> r = r'"
proof -
  have "list_all ident_char t" "list_all ident_char t'"
    using assms(1,3) by (auto simp: pascal_token_def list_all_iff intro: alnum_char_ident)
  moreover have "\<not> ident_char b" "\<not> ident_char b'"
    using assms(2,4) by (auto dest: isspace_plain)
  ultimately show ?thesis using assms(5) by (rule run_unique)
qed

lemma re_match_pattern1:
  "re_match pattern1 s = Some (gs, rest) \<longleftrightarrow>
   (\<exists>w t b. gs = [[w], t, [b]] \<and> s = w # t @ b # rest \<and> isspace w \<and> call_token t \<and> isspace b)"
  unfolding pattern1_def
  by (rule re_match3_iff [OF lang_space _ lang_space call_token_unique])
     (simp_all add: lang_call_shape call_token_shape)

lemma re_match_pattern2:
  "re_match pattern2 s = Some (gs, rest) \<longleftrightarrow>
   (\<exists>w t b. gs = [[w], t, [b]] \<and> s = w # t @ b # rest \<and> isspace w \<and> snake_token t \<and>
            snake_boundary b)"
  unfolding pattern2_def
  by (rule re_match3_iff [OF lang_space _ lang_snake_boundary snake_token_unique])
     (simp_all add: lang_snake_shape snake_token_shape)

lemma re_match_pattern3:
  "re_match pattern3 s = Some (gs, rest) \<longleftrightarrow>
   (\<exists>w t b. gs = [[w], t, [b]] \<and> s = w # t @ b # rest \<and> isspace w \<and> pascal_token t \<and>
            isspace b)"
  unfolding pattern3_def
  by (rule re_match3_iff [OF lang_space _ lang_space pascal_token_unique])
     (simp_all add: lang_pascal_shape pascal_token_shape)

lemma wrap_rule_pattern1: "wrap_rule pattern1 call_token isspace"
  unfolding wrap_rule_def
  using re_match_pattern1 call_token_plain isspace_plain by blast

lemma wrap_rule_pattern2: "wrap_rule pattern2 snake_token snake_boundary"
  unfolding wrap_rule_def
  using re_match_pattern2 snake_token_plain snake_boundary_plain
  by (simp add: snake_boundary_def)

lemma wrap_rule_pattern3: "wrap_rule pattern3 pascal_token isspace"
  unfolding wrap_rule_def
  using re_match_pattern3 pascal_token_plain isspace_plain by blast

section \<open>One substitution pass\<close>

text \<open>
  For a pattern that is a \<open>wrap_rule\<close>, the scan of \<open>re_sub\<close> either copies a character
  at which the pattern does not match or wraps the token of a match and goes on after the
  boundary character.
\<close>

declare re_sub.simps(2) [simp del]

lemma wrap_rule_matchD:
  "wrap_rule p tok bnd \<Longrightarrow> re_match p s = Some (gs, rest) \<Longrightarrow>
   \<exists>w t b. gs = [[w], t, [b]] \<and> s = w # t @ b # rest \<and> isspace w \<and> tok t \<and> bnd b"
  by (simp add: wrap_rule_def)

lemma wrap_rule_matchI:
  "wrap_rule p tok bnd \<Longrightarrow> isspace w \<Longrightarrow> tok t \<Longrightarrow> bnd b \<Longrightarrow>
   re_match p (w # t @ b # rest) = Some ([[w], t, [b]], rest)"
  by (simp add: wrap_rule_def)

lemma wrap_rule_tokD:
  "wrap_rule p tok bnd \<Longrightarrow> tok t \<Longrightarrow> t \<noteq> [] \<and> (\<forall>c\<in>set t. \<not> isspace c \<and> c \<noteq> backtick)"
  by (simp add: wrap_rule_def)

lemma wrap_rule_bndD: "wrap_rule p tok bnd \<Longrightarrow> bnd b \<Longrightarrow> b \<noteq> backtick"
  by (simp add: wrap_rule_def)

lemma wrap_rule_spaceD: "wrap_rule p tok bnd \<Longrightarrow> isspace b \<Longrightarrow> bnd b"
  by (simp add: wrap_rule_def)

lemma isspace_not_backtick: "isspace c \<Longrightarrow> c \<noteq> backtick"
  by (auto simp: isspace_def backtick_def)

lemma re_match_nonspace:
  "wrap_rule p tok bnd \<Longrightarrow> \<not> isspace x \<Longrightarrow> re_match p (x # xs) = None"
proof (cases "re_match p (x # xs)")
  case None
  then show ?thesis .
next
  case (Some m)
  assume wr: "wrap_rule p tok bnd" and ns: "\<not> isspace x"
  obtain gs rest where "m = (gs, rest)" by (cases m)
  with Some wrap_rule_matchD [OF wr] obtain w t b where
    "x # xs = w # t @ b # rest" "isspace w" by blast
  with ns show ?thesis by simp
qed

lemma re_match_before_tick:
  assumes "wrap_rule p tok bnd" shows "re_match p (x # backtick # xs) = None"
proof (cases "re_match p (x # backtick # xs)")
  case (Some m)
  obtain gs rest where "m = (gs, rest)" by (cases m)
  with Some wrap_rule_matchD [OF assms] obtain w t b where
    "x # backtick # xs = w # t @ b # rest" "tok t" by blast
  with wrap_rule_tokD [OF assms this(2)] show ?thesis by (cases t) auto
qed simp

lemma re_sub_hit:
  assumes "wrap_rule p tok bnd" "isspace w" "tok t" "bnd b"
  shows "re_sub p (w # t @ b # rest) = w # backtick # t @ backtick # b # re_sub p rest"
  using wrap_rule_matchI [OF assms, of rest] by (simp add: re_sub.simps)

lemma re_sub_miss: "re_match p (x # xs) = None \<Longrightarrow> re_sub p (x # xs) = x # re_sub p xs"
  by (simp add: re_sub.simps)

lemma re_sub_induct [consumes 1, case_names Nil Hit Miss]:
  assumes wr: "wrap_rule p tok bnd"
    and nil: "P []"
    and hit: "\<And>w t b rest. isspace w \<Longrightarrow> tok t \<Longrightarrow> bnd b \<Longrightarrow> P rest \<Longrightarrow> P (w # t @ b # rest)"
    and miss: "\<And>x xs. re_match p (x # xs) = None \<Longrightarrow> P xs \<Longrightarrow> P (x # xs)"
  shows "P s"
proof (induction s rule: length_induct)
  case (1 s)
  show ?case
  proof (cases s)
    case Nil
    with nil show ?thesis by simp
  next
    case (Cons x xs)
    show ?thesis
    proof (cases "re_match p s")
      case None
      with Cons 1 miss show ?thesis by simp
    next
      case (Some m)
      obtain gs rest where "m = (gs, rest)" by (cases m)
      with Some wrap_rule_matchD [OF wr] obtain w t b where
        *: "s = w # t @ b # rest" "isspace w" "tok t" "bnd b" by blast
      then have "length rest < length s" by simp
      with 1 have "P rest" by blast
      with * hit show ?thesis by blast
    qed
  qed
qed

lemma re_sub_nonspace:
  assumes "wrap_rule p tok bnd" "\<forall>c\<in>set t. \<not> isspace c"
  shows "re_sub p (t @ s) = t @ re_sub p s"
  using assms(2) by (induction t) (simp_all add: re_sub_miss re_match_nonspace [OF assms(1)])

lemma wraps_re_sub:
  assumes "wrap_rule p tok bnd" shows "wraps s (re_sub p s)"
  using assms
proof (induction s rule: re_sub_induct)
  case Nil
  show ?case by (simp add: wraps_nil)
next
  case (Hit w t b rest)
  with wrap_rule_tokD [OF assms] show ?case
    by (simp add: re_sub_hit [OF assms] wraps_token)
next
  case (Miss x xs)
  then show ?case by (simp add: re_sub_miss wraps_keep)
qed

lemma ins_bt_append_keep: "ins_bt xs ys \<Longrightarrow> ins_bt (t @ xs) (t @ ys)"
  by (induction t) (simp_all add: ins_keep)

lemma wraps_ins_bt: "wraps xs ys \<Longrightarrow> ins_bt xs ys"
proof (induction rule: wraps.induct)
  case (wraps_token xs ys t w b)
  have "ins_bt (b # xs) (backtick # b # ys)"
    by (simp add: ins_keep ins_tick wraps_token.IH)
  then have "ins_bt (t @ b # xs) (t @ backtick # b # ys)"
    by (rule ins_bt_append_keep)
  moreover have "t @ b # xs \<noteq> []" by simp
  ultimately have "ins_bt (t @ b # xs) (backtick # t @ backtick # b # ys)"
    by (rule ins_tick)
  then show ?case by (rule ins_keep)
qed (auto intro: ins_bt.intros)

lemma ins_bt_Nil_left: "ins_bt xs ys \<Longrightarrow> xs = [] \<Longrightarrow> ys = []"
  by (induction rule: ins_bt.induct) auto

lemma ins_bt_trans: "ins_bt ys zs \<Longrightarrow> ins_bt xs ys \<Longrightarrow> ins_bt xs zs"
proof (induction ys zs arbitrary: xs rule: ins_bt.induct)
  case ins_nil
  then show ?case by simp
next
  case (ins_keep ys zs y)
  from ins_keep.prems show ?case
  proof (cases rule: ins_bt.cases)
    case (ins_keep xs')
    with ins_keep.IH show ?thesis by (auto intro: ins_bt.ins_keep)
  next
    case ins_tick
    with ins_keep.IH show ?thesis by (auto intro: ins_bt.ins_tick)
  qed
next
  case (ins_tick ys zs)
  from ins_tick.prems ins_tick.hyps(2) have "xs \<noteq> []"
    using ins_bt_Nil_left by blast
  with ins_tick.IH [OF ins_tick.prems] show ?case by (rule ins_bt.ins_tick)
qed


lemma ins_bt_last: "ins_bt xs ys \<Longrightarrow> xs \<noteq> [] \<Longrightarrow> ys \<noteq> [] \<and> last ys = last xs"
proof (induction rule: ins_bt.induct)
  case (ins_keep xs ys x)
  then show ?case by (cases "xs = []") (auto dest: ins_bt_Nil_left)
qed auto

lemma ins_bt_count:
  "ins_bt xs ys \<Longrightarrow> c \<noteq> backtick \<Longrightarrow> count_list ys c = count_list xs c"
  by (induction rule: ins_bt.induct) auto

lemma ins_bt_fix_doc_line: "ins_bt line (fix_doc_line line)"
proof (cases "is_doc_line line")
  case False
  have "ins_bt s s" for s by (induction s) (auto intro: ins_bt.intros)
  with False show ?thesis by (simp add: fix_doc_line_def)
next
  case True
  have 1: "ins_bt line (re_sub pattern1 line)"
    by (rule wraps_ins_bt [OF wraps_re_sub [OF wrap_rule_pattern1]])
  have 2: "ins_bt (re_sub pattern1 line) (re_sub pattern2 (re_sub pattern1 line))"
    by (rule wraps_ins_bt [OF wraps_re_sub [OF wrap_rule_pattern2]])
  have 3: "ins_bt (re_sub pattern2 (re_sub pattern1 line))
             (re_sub pattern3 (re_sub pattern2 (re_sub pattern1 line)))"
    by (rule wraps_ins_bt [OF wraps_re_sub [OF wrap_rule_pattern3]])
  from True show ?thesis
    by (simp add: fix_doc_line_def ins_bt_trans [OF 3 ins_bt_trans [OF 2 1]])
qed

section \<open>Texts the inserted backticks leave intact\<close>

text \<open>
  A stretch of the output without a backtick is a stretch of the input.
\<close>

lemma ins_bt_refl: "ins_bt s s"
  by (induction s) (auto intro: ins_bt.intros)

lemma ins_bt_prefix:
  "ins_bt xs ys \<Longrightarrow> ys = m @ post \<Longrightarrow> backtick \<notin> set m \<Longrightarrow> \<exists>post'. xs = m @ post'"
proof (induction xs ys arbitrary: m rule: ins_bt.induct)
  case ins_nil
  then show ?case by simp
next
  case (ins_keep xs ys x)
  show ?case
  proof (cases m)
    case Nil
    then show ?thesis by simp
  next
    case (Cons a m')
    with ins_keep.prems have "a = x" "ys = m' @ post" "backtick \<notin> set m'" by simp_all
    with ins_keep.IH [of m'] Cons show ?thesis by auto
  qed
next
  case (ins_tick xs ys)
  then have "m = []" by (cases m) auto
  then show ?case by simp
qed

lemma ins_bt_window:
  "ins_bt xs ys \<Longrightarrow> ys = pre @ m @ post \<Longrightarrow> backtick \<notin> set m \<Longrightarrow>
   \<exists>pre' post'. xs = pre' @ m @ post'"
proof (induction xs ys arbitrary: pre rule: ins_bt.induct)
  case ins_nil
  then show ?case by simp
next
  case (ins_keep xs ys x)
  show ?case
  proof (cases pre)
    case Nil
    have "ins_bt (x # xs) (x # ys)" using ins_keep.hyps by (rule ins_bt.ins_keep)
    from ins_bt_prefix [OF this, of m post] ins_keep.prems Nil
    obtain post' where "x # xs = m @ post'" by auto
    then have "x # xs = [] @ m @ post'" by simp
    then show ?thesis by blast
  next
    case (Cons a pre2)
    with ins_keep.prems have "a = x" "ys = pre2 @ m @ post" by simp_all
    from ins_keep.IH [OF this(2) ins_keep.prems(2)] obtain pre' post'
      where "xs = pre' @ m @ post'" by blast
    then have "x # xs = (x # pre') @ m @ post'" by simp
    then show ?thesis by blast
  qed
next
  case (ins_tick xs ys)
  show ?case
  proof (cases pre)
    case Nil
    with ins_tick.prems have "m = []" by (cases m) auto
    then have "xs = [] @ m @ xs" by simp
    then show ?thesis by blast
  next
    case (Cons a pre2)
    with ins_tick.prems have "ys = pre2 @ m @ post" by simp
    from ins_tick.IH [OF this ins_tick.prems(2)] show ?thesis .
  qed
qed

lemma nohit_fix: "nohit p s \<Longrightarrow> re_sub p s = s"
  by (induction s) (simp_all add: re_sub_miss)

lemma nohit_iff:
  "nohit p s \<longleftrightarrow> (\<forall>pre u. s = pre @ u \<longrightarrow> u \<noteq> [] \<longrightarrow> re_match p u = None)"
proof (induction s)
  case Nil
  show ?case by simp
next
  case (Cons x xs)
  have "(\<forall>pre u. x # xs = pre @ u \<longrightarrow> u \<noteq> [] \<longrightarrow> re_match p u = None) \<longleftrightarrow>
        re_match p (x # xs) = None \<and> (\<forall>pre u. xs = pre @ u \<longrightarrow> u \<noteq> [] \<longrightarrow> re_match p u = None)"
    (is "?A \<longleftrightarrow> ?B \<and> ?C")
  proof (intro iffI conjI)
    assume a: ?A
    from a [rule_format, of "[]" "x # xs"] show ?B by simp
    show ?C
    proof (intro allI impI)
      fix pre u assume "xs = pre @ u" "u \<noteq> []"
      with a [rule_format, of "x # pre" u] show "re_match p u = None" by simp
    qed
  next
    assume bc: "?B \<and> ?C"
    show ?A
    proof (intro allI impI)
      fix pre u assume e: "x # xs = pre @ u" and u: "u \<noteq> []"
      show "re_match p u = None"
      proof (cases pre)
        case Nil
        with e bc show ?thesis by simp
      next
        case (Cons a pre')
        with e have "xs = pre' @ u" by simp
        with bc u show ?thesis by blast
      qed
    qed
  qed
  with Cons show ?case by simp
qed

lemma noshare_iff:
  "noshare p s \<longleftrightarrow>
   (\<forall>pre u gs rest. s = pre @ u \<longrightarrow> u \<noteq> [] \<longrightarrow> re_match p u = Some (gs, rest) \<longrightarrow>
      re_match p (last gs @ rest) = None)"
proof (induction s)
  case Nil
  show ?case by simp
next
  case (Cons x xs)
  let ?Q = "\<lambda>u. \<forall>gs rest. re_match p u = Some (gs, rest) \<longrightarrow> re_match p (last gs @ rest) = None"
  have "(\<forall>pre u. x # xs = pre @ u \<longrightarrow> u \<noteq> [] \<longrightarrow> ?Q u) \<longleftrightarrow>
        ?Q (x # xs) \<and> (\<forall>pre u. xs = pre @ u \<longrightarrow> u \<noteq> [] \<longrightarrow> ?Q u)"
    (is "?A \<longleftrightarrow> ?B \<and> ?C")
  proof (intro iffI conjI)
    assume a: ?A
    from a [rule_format, of "[]" "x # xs"] show ?B by simp
    show ?C
    proof (intro allI impI)
      fix pre u gs rest
      assume "xs = pre @ u" "u \<noteq> []" "re_match p u = Some (gs, rest)"
      with a [rule_format, of "x # pre" u gs rest] show "re_match p (last gs @ rest) = None"
        by simp
    qed
  next
    assume bc: "?B \<and> ?C"
    show ?A
    proof (intro allI impI)
      fix pre u gs rest
      assume e: "x # xs = pre @ u" and u: "u \<noteq> []" and m: "re_match p u = Some (gs, rest)"
      show "re_match p (last gs @ rest) = None"
      proof (cases pre)
        case Nil
        with e bc m show ?thesis by simp
      next
        case (Cons a pre')
        with e have "xs = pre' @ u" by simp
        with bc u m show ?thesis by blast
      qed
    qed
  qed
  moreover have "?Q (x # xs) \<longleftrightarrow>
    (case re_match p (x # xs) of None \<Rightarrow> True
     | Some (gs, rest) \<Rightarrow> re_match p (last gs @ rest) = None)"
    by (auto split: option.splits)
  ultimately show ?case using Cons by simp
qed

section \<open>Matches left after a pass\<close>

text \<open>
  A pass leaves a match of its own pattern behind only where two matches shared a
  boundary character, and a pass of another rule creates no match.
\<close>

lemma window_plain:
  assumes wr: "wrap_rule p tok bnd" and "isspace w" "tok t" "bnd b"
  shows "backtick \<notin> set (w # t @ [b])"
  using assms wrap_rule_tokD [OF wr, of t] wrap_rule_bndD [OF wr, of b]
  by (auto dest: isspace_not_backtick)

lemma nohit_transfer:
  assumes wr: "wrap_rule p tok bnd" and ins: "ins_bt s s'" and nh: "nohit p s"
  shows "nohit p s'"
  unfolding nohit_iff
proof (intro allI impI)
  fix pre u assume s': "s' = pre @ u" and "u \<noteq> []"
  show "re_match p u = None"
  proof (cases "re_match p u")
    case (Some m)
    obtain gs rest where "m = (gs, rest)" by (cases m)
    with Some wrap_rule_matchD [OF wr] obtain w t b where
      u: "u = w # t @ b # rest" and *: "isspace w" "tok t" "bnd b" by blast
    from s' u have "s' = pre @ (w # t @ [b]) @ rest" by simp
    from ins_bt_window [OF ins this window_plain [OF wr *]]
    obtain pre' post' where "s = pre' @ (w # t @ [b]) @ post'" by blast
    then have "s = pre' @ (w # t @ b # post')" by simp
    with nh have "re_match p (w # t @ b # post') = None"
      unfolding nohit_iff by blast
    with wrap_rule_matchI [OF wr *, of post'] show ?thesis by simp
  qed simp
qed

lemma noshare_transfer:
  assumes wr: "wrap_rule p tok bnd" and ins: "ins_bt s s'" and ns: "noshare p s"
  shows "noshare p s'"
  unfolding noshare_iff
proof (intro allI impI)
  fix pre u gs rest
  assume s': "s' = pre @ u" and "u \<noteq> []" and m: "re_match p u = Some (gs, rest)"
  from wrap_rule_matchD [OF wr m] obtain w t b where
    gs: "gs = [[w], t, [b]]" and u: "u = w # t @ b # rest" and *: "isspace w" "tok t" "bnd b"
    by blast
  show "re_match p (last gs @ rest) = None"
  proof (cases "re_match p (last gs @ rest)")
    case (Some m2)
    obtain gs2 rest2 where "m2 = (gs2, rest2)" by (cases m2)
    with Some gs wrap_rule_matchD [OF wr, of "b # rest" gs2 rest2] obtain w2 t2 b2 where
      r: "b # rest = w2 # t2 @ b2 # rest2" and **: "isspace w2" "tok t2" "bnd b2" by auto
    then have b: "isspace b" and rest: "rest = t2 @ b2 # rest2" by simp_all
    have plain: "backtick \<notin> set (w # t @ b # t2 @ [b2])"
      using window_plain [OF wr *] window_plain [OF wr ** ] r by auto
    from s' u rest have "s' = pre @ (w # t @ b # t2 @ [b2]) @ rest2" by simp
    from ins_bt_window [OF ins this plain]
    obtain pre' post' where "s = pre' @ (w # t @ b # t2 @ [b2]) @ post'" by blast
    then have s: "s = pre' @ (w # t @ b # (t2 @ b2 # post'))" by simp
    have "re_match p (w # t @ b # (t2 @ b2 # post')) = Some ([[w], t, [b]], t2 @ b2 # post')"
      by (rule wrap_rule_matchI [OF wr *])
    with ns s have "re_match p (last [[w], t, [b]] @ (t2 @ b2 # post')) = None"
      unfolding noshare_iff by blast
    with wrap_rule_matchI [OF wr b **(2,3), of post'] show ?thesis by simp
  qed simp
qed

lemma re_match_pullback:
  assumes wr: "wrap_rule p tok bnd" and ins: "ins_bt xs ys"
    and none: "re_match p (x # xs) = None"
  shows "re_match p (x # ys) = None"
proof (cases "re_match p (x # ys)")
  case (Some m)
  obtain gs rest where "m = (gs, rest)" by (cases m)
  with Some wrap_rule_matchD [OF wr] obtain w t b where
    e: "x # ys = w # t @ b # rest" and *: "isspace w" "tok t" "bnd b" by blast
  then have "ys = (t @ [b]) @ rest" and "x = w" by simp_all
  moreover have "backtick \<notin> set (t @ [b])" using window_plain [OF wr *] by simp
  ultimately obtain post' where "xs = (t @ [b]) @ post'"
    using ins_bt_prefix [OF ins] by blast
  with \<open>x = w\<close> wrap_rule_matchI [OF wr *, of post'] none show ?thesis by simp
qed simp

lemma noshare_append: "noshare p (a @ s) \<Longrightarrow> noshare p s"
  by (induction a) simp_all

lemma nohit_nonspace_append:
  assumes "wrap_rule p tok bnd" "\<forall>c\<in>set a. \<not> isspace c"
  shows "nohit p (a @ s) = nohit p s"
  using assms(2) by (induction a) (simp_all add: re_match_nonspace [OF assms(1)])

lemma nohit_re_sub:
  assumes wr: "wrap_rule p tok bnd"
  shows "noshare p s \<Longrightarrow> nohit p (re_sub p s)"
  using wr
proof (induction s rule: re_sub_induct)
  case Nil
  show ?case by simp
next
  case (Miss x xs)
  from Miss.prems have "noshare p xs" by simp
  with Miss.IH have "nohit p (re_sub p xs)" .
  moreover have "re_match p (x # re_sub p xs) = None"
    by (rule re_match_pullback [OF wr wraps_ins_bt [OF wraps_re_sub [OF wr]] Miss.hyps])
  ultimately show ?case by (simp add: re_sub_miss [OF Miss.hyps])
next
  case (Hit w t b rest)
  have m: "re_match p (w # t @ b # rest) = Some ([[w], t, [b]], rest)"
    by (rule wrap_rule_matchI [OF wr Hit.hyps])
  with Hit.prems have none: "re_match p (b # rest) = None" by simp
  from Hit.prems have "noshare p (t @ b # rest)" by simp
  then have "noshare p rest" using noshare_append [of p "t @ [b]" rest] by simp
  with Hit.IH have nh: "nohit p (re_sub p rest)" .
  have b: "re_match p (b # re_sub p rest) = None"
    by (rule re_match_pullback [OF wr wraps_ins_bt [OF wraps_re_sub [OF wr]] none])
  have plain: "\<forall>c\<in>set (backtick # t @ [backtick]). \<not> isspace c"
    using wrap_rule_tokD [OF wr Hit.hyps(2)] isspace_not_backtick by auto
  have "nohit p ((backtick # t @ [backtick]) @ b # re_sub p rest)"
    unfolding nohit_nonspace_append [OF wr plain] using b nh by simp
  then have "nohit p (w # backtick # t @ backtick # b # re_sub p rest)"
    by (simp add: re_match_before_tick [OF wr])
  then show ?case by (simp add: re_sub_hit [OF wr Hit.hyps])
qed

lemma fix_doc_line_idem:
  assumes 1: "noshare pattern1 line" and 2: "noshare pattern2 line" and 3: "noshare pattern3 line"
  shows "fix_doc_line (fix_doc_line line) = fix_doc_line line"
proof (cases "is_doc_line line")
  case False
  then show ?thesis by (simp add: fix_doc_line_def)
next
  case True
  define l1 where "l1 = re_sub pattern1 line"
  define l2 where "l2 = re_sub pattern2 l1"
  define l3 where "l3 = re_sub pattern3 l2"
  have i1: "ins_bt line l1" unfolding l1_def
    by (rule wraps_ins_bt [OF wraps_re_sub [OF wrap_rule_pattern1]])
  have i2: "ins_bt l1 l2" unfolding l2_def
    by (rule wraps_ins_bt [OF wraps_re_sub [OF wrap_rule_pattern2]])
  have i3: "ins_bt l2 l3" unfolding l3_def
    by (rule wraps_ins_bt [OF wraps_re_sub [OF wrap_rule_pattern3]])
  have h1: "nohit pattern1 l3"
    using nohit_re_sub [OF wrap_rule_pattern1 1]
    by (fold l1_def) (intro nohit_transfer [OF wrap_rule_pattern1 i3]
         nohit_transfer [OF wrap_rule_pattern1 i2])
  have "noshare pattern2 l1" by (rule noshare_transfer [OF wrap_rule_pattern2 i1 2])
  from nohit_re_sub [OF wrap_rule_pattern2 this]
  have h2: "nohit pattern2 l3"
    by (fold l2_def) (rule nohit_transfer [OF wrap_rule_pattern2 i3])
  have "noshare pattern3 l2"
    by (intro noshare_transfer [OF wrap_rule_pattern3 i2]
          noshare_transfer [OF wrap_rule_pattern3 i1] 3)
  from nohit_re_sub [OF wrap_rule_pattern3 this]
  have h3: "nohit pattern3 l3" by (fold l3_def)
  have l3: "fix_doc_line line = l3"
    using True by (simp add: fix_doc_line_def l1_def l2_def l3_def)
  show ?thesis
    unfolding l3 by (simp add: fix_doc_line_def nohit_fix h1 h2 h3)
qed

section \<open>The loop over the lines and the text files\<close>

text \<open>
  The loop computes \<open>map fix_doc_line\<close> and counts the changed lines; \<open>fix_doc_line\<close>
  keeps the shape of a line, so that the text written splits into the new lines again.
\<close>

lemma process_lines_eq:
  "process_lines lines new_lines file_changes =
     (new_lines @ map fix_doc_line lines,
      file_changes + length (filter (\<lambda>l. fix_doc_line l \<noteq> l) lines))"
  by (induction lines arbitrary: new_lines file_changes) (simp_all add: Let_def)

lemma split_lines_terminated:
  "10 \<notin> set a \<Longrightarrow> split_lines cur (a @ 10 # rest) = (rev cur @ a @ [10]) # split_lines [] rest"
  by (induction a arbitrary: cur) simp_all

lemma split_lines_open:
  "10 \<notin> set a \<Longrightarrow> split_lines cur a = (if rev cur @ a = [] then [] else [rev cur @ a])"
  by (induction a arbitrary: cur) simp_all

lemma lines_ok_split: "lines_ok (split_lines [] s0)"
proof (induction s0 rule: length_induct)
  case (1 s0)
  show ?case
  proof (cases "10 \<in> set s0")
    case False
    then show ?thesis by (auto simp: split_lines_open dest: in_set_butlastD)
  next
    case True
    then obtain a rest where t: "s0 = a @ 10 # rest" and a: "10 \<notin> set a"
      by (auto dest: split_list_first)
    then have "length rest < length s0" by simp
    with 1 have ok: "lines_ok (split_lines [] rest)" by blast
    have s: "split_lines [] s0 = (a @ [10]) # split_lines [] rest"
      using split_lines_terminated [OF a, of "[]" rest] t by simp
    show ?thesis
      unfolding s using ok a by (cases "split_lines [] rest") simp_all
  qed
qed

lemma split_lines_concat: "lines_ok ls \<Longrightarrow> split_lines [] (concat ls) = ls"
proof (induction ls rule: lines_ok.induct)
  case 1
  show ?case by simp
next
  case (2 l)
  then have l: "l = butlast l @ [last l]" and b: "10 \<notin> set (butlast l)" by simp_all
  show ?case
  proof (cases "last l = 10")
    case True
    from split_lines_terminated [OF b, of "[]" "[]"] True l show ?thesis
      by (metis append_Nil concat.simps(1,2) append_Nil2 rev.simps(1) split_lines.simps(1))
  next
    case False
    with l b have "10 \<notin> set l" by (metis Un_iff empty_iff empty_set set_ConsD set_append)
    from split_lines_open [OF this, of "[]"] 2 show ?thesis by simp
  qed
next
  case (3 l m ls)
  then have "l \<noteq> []" "last l = 10" and b: "10 \<notin> set (butlast l)"
    and ok: "lines_ok (m # ls)"
    by simp_all
  from append_butlast_last_id [OF this(1)] this(2) have l: "l = butlast l @ [10]" by simp
  have "concat (l # m # ls) = butlast l @ 10 # concat (m # ls)"
    using l by (metis append.assoc append_Cons append_Nil concat.simps(2))
  with split_lines_terminated [OF b, of "[]" "concat (m # ls)"] 3 ok l
  show ?case by (metis append_Nil rev.simps(1))
qed

lemma fix_doc_line_Nil: "fix_doc_line [] = []"
  using ins_bt_fix_doc_line [of "[]"] by (auto dest: ins_bt_Nil_left)

lemma fix_doc_line_last: "line \<noteq> [] \<Longrightarrow> fix_doc_line line \<noteq> [] \<and> last (fix_doc_line line) = last line"
  by (rule ins_bt_last [OF ins_bt_fix_doc_line])

lemma fix_doc_line_count:
  "c \<noteq> backtick \<Longrightarrow> count_list (fix_doc_line line) c = count_list line c"
  by (rule ins_bt_count [OF ins_bt_fix_doc_line])

lemma count_butlast:
  "l \<noteq> [] \<Longrightarrow> count_list l c = count_list (butlast l) c + (if last l = c then 1 else 0)"
  using count_list_append [of "butlast l" "[last l]" c] by simp

lemma fix_doc_line_butlast:
  assumes "10 \<notin> set (butlast line)" shows "10 \<notin> set (butlast (fix_doc_line line))"
proof (cases "line = []")
  case True
  then show ?thesis by (simp add: fix_doc_line_Nil)
next
  case False
  from fix_doc_line_last [OF False] have ne: "fix_doc_line line \<noteq> []"
    and la: "last (fix_doc_line line) = last line" by simp_all
  have "count_list (fix_doc_line line) 10 = count_list line 10"
    by (rule fix_doc_line_count) (simp add: backtick_def)
  with count_butlast [OF False, of 10] count_butlast [OF ne, of 10] la
  have "count_list (butlast (fix_doc_line line)) 10 = count_list (butlast line) 10"
    by simp
  with assms show ?thesis by (simp add: count_list_0_iff [symmetric])
qed

lemma lines_ok_map: "lines_ok ls \<Longrightarrow> lines_ok (map fix_doc_line ls)"
  by (induction ls rule: lines_ok.induct)
     (simp_all add: fix_doc_line_last fix_doc_line_butlast)

lemma universal_newlines_no_cr: "13 \<notin> set (universal_newlines x)"
  by (induction x rule: universal_newlines.induct) auto

lemma universal_newlines_Cons:
  "c \<noteq> 13 \<Longrightarrow> universal_newlines (c # w) = c # universal_newlines w"
  by (cases w) auto

lemma universal_newlines_write:
  assumes "linesep = [10] \<or> linesep = [13, 10]"
  shows "13 \<notin> set x \<Longrightarrow> universal_newlines (write_text linesep x) = x"
  using assms
  by (induction x) (auto simp: write_text_def universal_newlines_Cons)

lemma line_terminators_lf: "line_terminators (10 # w) = [10] # line_terminators w"
  by (cases w) auto

lemma line_terminators_other:
  "c \<noteq> 10 \<Longrightarrow> c \<noteq> 13 \<Longrightarrow> line_terminators (c # w) = line_terminators w"
  by (cases w) auto

lemma line_terminators_write:
  assumes "linesep = [10] \<or> linesep = [13, 10]"
  shows "13 \<notin> set x \<Longrightarrow>
         line_terminators (write_text linesep x) = replicate (count_list x 10) linesep"
  using assms
  by (induction x)
     (auto simp: write_text_def line_terminators_lf line_terminators_other)

lemma line_terminators_count:
  "length (line_terminators x) = count_list (universal_newlines x) 10"
  by (induction x rule: line_terminators.induct) auto

lemma readlines_concat: "concat (split_lines cur s) = rev cur @ s"
  by (induction cur s rule: split_lines.induct) auto

lemma count_list_concat_map:
  assumes "\<And>l. count_list (f l) c = count_list l c"
  shows "count_list (concat (map f ls)) c = count_list (concat ls) c"
  by (induction ls) (simp_all add: assms)

lemma new_text_facts:
  fixes content :: pystr
  defines "new_text \<equiv> concat (map fix_doc_line (readlines content))"
  shows "13 \<notin> set new_text"
    and "count_list new_text 10 = length (line_terminators content)"
proof -
  have c: "concat (readlines content) = universal_newlines content"
    by (simp add: readlines_def readlines_concat)
  have "count_list new_text 13 = count_list (concat (readlines content)) 13"
    unfolding new_text_def
    by (rule count_list_concat_map) (simp add: fix_doc_line_count backtick_def)
  with c universal_newlines_no_cr [of content] show "13 \<notin> set new_text"
    by (simp add: count_list_0_iff [symmetric])
  have "count_list new_text 10 = count_list (concat (readlines content)) 10"
    unfolding new_text_def
    by (rule count_list_concat_map) (simp add: fix_doc_line_count backtick_def)
  with c show "count_list new_text 10 = length (line_terminators content)"
    by (simp add: line_terminators_count)
qed

lemma readlines_written:
  assumes "linesep = [10] \<or> linesep = [13, 10]"
  shows "readlines (writelines linesep (map fix_doc_line (readlines content)))
           = map fix_doc_line (readlines content)"
proof -
  have "lines_ok (map fix_doc_line (readlines content))"
    unfolding readlines_def by (rule lines_ok_map [OF lines_ok_split])
  then have "split_lines [] (concat (map fix_doc_line (readlines content)))
               = map fix_doc_line (readlines content)"
    by (rule split_lines_concat)
  moreover have "readlines (writelines linesep (map fix_doc_line (readlines content)))
      = split_lines [] (universal_newlines
          (write_text linesep (concat (map fix_doc_line (readlines content)))))"
    by (simp only: readlines_def writelines_def)
  ultimately show ?thesis
    by (simp only: universal_newlines_write [OF assms new_text_facts(1)])
qed

lemma changed_lines_pos:
  "0 < length (filter (\<lambda>l. fix_doc_line l \<noteq> l) ls) \<longleftrightarrow> (\<exists>l\<in>set ls. fix_doc_line l \<noteq> l)"
  by (simp add: filter_empty_conv)

lemma process_file_unchanged:
  assumes "files st file_path = Some content"
    and "\<forall>line\<in>set (readlines content). fix_doc_line line = line"
  shows "process_file linesep file_path st = Inr st"
proof -
  from assms(2) have "filter (\<lambda>l. fix_doc_line l \<noteq> l) (readlines content) = []"
    by (simp add: filter_empty_conv)
  with assms(1) show ?thesis by (simp add: process_file_def process_lines_eq)
qed

lemma process_file_changed:
  assumes "files st file_path = Some content"
    and "\<exists>line\<in>set (readlines content). fix_doc_line line \<noteq> line"
  shows "process_file linesep file_path st =
     Inr (st\<lparr>files := (files st)(file_path \<mapsto>
                  writelines linesep (map fix_doc_line (readlines content))),
             writes := writes st @ [file_path],
             printed := printed st @ [Updated file_path
               (length (filter (\<lambda>line. fix_doc_line line \<noteq> line) (readlines content)))],
             total_changes := total_changes st +
               length (filter (\<lambda>line. fix_doc_line line \<noteq> line) (readlines content))\<rparr>)"
proof -
  from assms(2) have "0 < length (filter (\<lambda>l. fix_doc_line l \<noteq> l) (readlines content))"
    by (simp only: changed_lines_pos)
  with assms(1) show ?thesis by (simp add: process_file_def process_lines_eq)
qed

lemma process_file_frame:
  assumes "process_file linesep p st = Inr st'"
  shows "writes st' = writes st @ (if file_changed (files st) p then [p] else []) \<and>
         (\<forall>q. q \<noteq> p \<or> \<not> file_changed (files st) p \<longrightarrow> files st' q = files st q)"
proof (cases "files st p")
  case None
  with assms show ?thesis by (simp add: process_file_def)
next
  case (Some content)
  show ?thesis
  proof (cases "\<exists>line\<in>set (readlines content). fix_doc_line line \<noteq> line")
    case True
    from process_file_changed [OF Some True, of linesep] assms True Some
    show ?thesis by (auto simp: file_changed_def)
  next
    case False
    then have "\<forall>line\<in>set (readlines content). fix_doc_line line = line" by simp
    from process_file_unchanged [OF Some this, of linesep] assms False Some
    show ?thesis by (auto simp: file_changed_def)
  qed
qed

lemma process_files_frame:
  "distinct ps \<Longrightarrow> process_files linesep ps st = Inr st' \<Longrightarrow>
   writes st' = writes st @ filter (file_changed (files st)) ps \<and>
   (\<forall>q. q \<notin> set (filter (file_changed (files st)) ps) \<longrightarrow> files st' q = files st q)"
proof (induction ps arbitrary: st)
  case Nil
  then show ?case by simp
next
  case (Cons p ps)
  from Cons.prems(2) obtain st1 where 1: "process_file linesep p st = Inr st1"
    and 2: "process_files linesep ps st1 = Inr st'"
    by (auto split: sum.splits)
  from process_file_frame [OF 1] have w1: "writes st1 = writes st @ (if file_changed (files st) p then [p] else [])"
    and f1: "\<And>q. q \<noteq> p \<or> \<not> file_changed (files st) p \<Longrightarrow> files st1 q = files st q"
    by simp_all
  from Cons.prems(1) have d: "distinct ps" and np: "p \<notin> set ps" by simp_all
  have same: "file_changed (files st1) q = file_changed (files st) q" if "q \<in> set ps" for q
  proof -
    from that np have "q \<noteq> p" by auto
    then have "files st1 q = files st q" by (simp add: f1)
    then show ?thesis by (simp add: file_changed_def)
  qed
  then have filt: "filter (file_changed (files st1)) ps = filter (file_changed (files st)) ps"
    by (auto intro: filter_cong)
  from Cons.IH [OF d 2] have w2: "writes st' = writes st1 @ filter (file_changed (files st1)) ps"
    and f2: "\<And>q. q \<notin> set (filter (file_changed (files st1)) ps) \<Longrightarrow> files st' q = files st1 q"
    by simp_all
  have "writes st' = writes st @ filter (file_changed (files st)) (p # ps)"
    using w1 w2 filt by simp
  moreover have "files st' q = files st q"
    if "q \<notin> set (filter (file_changed (files st)) (p # ps))" for q
  proof -
    from that have a: "q \<notin> set (filter (file_changed (files st1)) ps)"
      unfolding filt by (auto split: if_splits)
    from that have b: "q \<noteq> p \<or> \<not> file_changed (files st) p" by auto
    from f2 [OF a] f1 [OF b] show ?thesis by simp
  qed
  ultimately show ?case by blast
qed

lemma main_frame:
  assumes "distinct rust_files" "main linesep rust_files fs = Inr st"
  shows "writes st = filter (file_changed fs) rust_files \<and>
         (\<forall>q. q \<notin> set (filter (file_changed fs) rust_files) \<longrightarrow> files st q = fs q)"
proof -
  from assms(2) obtain st0 where
    "process_files linesep rust_files \<lparr>files = fs, writes = [], printed = [], total_changes = 0\<rparr>
       = Inr st0" and st: "st = st0\<lparr>printed := printed st0 @ [Total (total_changes st0)]\<rparr>"
    by (auto simp: main_def split: sum.splits)
  from process_files_frame [OF assms(1) this(1)] st show ?thesis by simp
qed

section \<open>The positions the scan reaches\<close>

text \<open>
  Up to a position the scan reaches, the output is the text before that position with
  backticks inserted; from there on it is the output of the scan of the rest.
\<close>

lemma ins_bt_append: "ins_bt a a' \<Longrightarrow> ins_bt b b' \<Longrightarrow> ins_bt (a @ b) (a' @ b')"
  by (induction rule: ins_bt.induct) (auto intro: ins_bt.intros)

lemma ins_bt_wrapped:
  "t \<noteq> [] \<Longrightarrow> ins_bt (w # t @ [b]) (w # backtick # t @ [backtick, b])"
  using wraps_ins_bt [OF wraps_token [OF wraps_nil, of t w b]] by simp

lemma reaches_out:
  assumes wr: "wrap_rule p tok bnd"
  shows "reaches p s u \<Longrightarrow>
         \<exists>pre out. s = pre @ u \<and> ins_bt pre out \<and> re_sub p s = out @ re_sub p u"
proof (induction rule: reaches.induct)
  case reaches_start
  have "s = [] @ s \<and> ins_bt [] [] \<and> re_sub p s = [] @ re_sub p s"
    by (simp add: ins_nil)
  then show ?case by blast
next
  case (reaches_copy x xs)
  then obtain pre out where *: "s = pre @ x # xs" "ins_bt pre out"
    "re_sub p s = out @ re_sub p (x # xs)" by blast
  have "ins_bt (pre @ [x]) (out @ [x])"
    by (rule ins_bt_append [OF *(2)]) (rule ins_bt_refl)
  with * re_sub_miss [OF reaches_copy.hyps(2)]
  have "s = (pre @ [x]) @ xs \<and> ins_bt (pre @ [x]) (out @ [x]) \<and>
        re_sub p s = (out @ [x]) @ re_sub p xs" by simp
  then show ?case by blast
next
  case (reaches_match x xs gs rest)
  then obtain pre out where *: "s = pre @ x # xs" "ins_bt pre out"
    "re_sub p s = out @ re_sub p (x # xs)" by blast
  from wrap_rule_matchD [OF wr reaches_match.hyps(2)] obtain w t b where
    m: "x # xs = w # t @ b # rest" "isspace w" "tok t" "bnd b" by blast
  from wrap_rule_tokD [OF wr m(3)] have "t \<noteq> []" by simp
  then have "ins_bt (pre @ w # t @ [b]) (out @ w # backtick # t @ [backtick, b])"
    by (intro ins_bt_append [OF *(2)] ins_bt_wrapped)
  with * m re_sub_hit [OF wr m(2,3,4), of rest]
  have "s = (pre @ w # t @ [b]) @ rest \<and>
        ins_bt (pre @ w # t @ [b]) (out @ w # backtick # t @ [backtick, b]) \<and>
        re_sub p s = (out @ w # backtick # t @ [backtick, b]) @ re_sub p rest" by simp
  then show ?case by blast
next
  case (reaches_empty x xs gs rest)
  from wrap_rule_matchD [OF wr reaches_empty.hyps(2)] reaches_empty.hyps(3)
  show ?case by auto
qed

lemma scan_hit:
  assumes wr: "wrap_rule p tok bnd"
    and r: "reaches p s (w # t @ b # rest)" and c: "isspace w" "tok t" "bnd b"
  shows "reaches p s rest \<and>
         (\<exists>pre out. s = pre @ w # t @ b # rest \<and> ins_bt pre out \<and>
            re_sub p s = out @ w # backtick # t @ backtick # b # re_sub p rest)"
proof
  have "length rest < length (w # t @ b # rest)" by simp
  with r wrap_rule_matchI [OF wr c, of rest] show "reaches p s rest"
    by (rule reaches_match)
  from reaches_out [OF wr r] re_sub_hit [OF wr c, of rest]
  show "\<exists>pre out. s = pre @ w # t @ b # rest \<and> ins_bt pre out \<and>
            re_sub p s = out @ w # backtick # t @ backtick # b # re_sub p rest"
    by auto
qed

lemma scan_miss:
  assumes wr: "wrap_rule p tok bnd"
    and r: "reaches p s (x # xs)"
    and c: "\<not> (\<exists>w t b rest. x # xs = w # t @ b # rest \<and> isspace w \<and> tok t \<and> bnd b)"
  shows "reaches p s xs \<and>
         (\<exists>pre out. s = pre @ x # xs \<and> ins_bt pre out \<and> re_sub p s = out @ x # re_sub p xs)"
proof
  have none: "re_match p (x # xs) = None"
  proof (cases "re_match p (x # xs)")
    case (Some m)
    obtain gs rest where "m = (gs, rest)" by (cases m)
    with Some wrap_rule_matchD [OF wr] c show ?thesis by blast
  qed simp
  with r show "reaches p s xs" by (rule reaches_copy)
  from reaches_out [OF wr r] re_sub_miss [OF none]
  show "\<exists>pre out. s = pre @ x # xs \<and> ins_bt pre out \<and> re_sub p s = out @ x # re_sub p xs"
    by auto
qed

lemma reaches_skipped_aux: "reaches p s (pre @ u) \<Longrightarrow> skipped p pre u \<Longrightarrow> reaches p s u"
proof (induction pre)
  case Nil
  then show ?case by simp
next
  case (Cons x xs)
  from Cons.prems have "reaches p s (x # xs @ u)" "re_match p (x # xs @ u) = None" by simp_all
  then have "reaches p s (xs @ u)" by (rule reaches_copy)
  with Cons show ?case by simp
qed

lemma reaches_skipped: "skipped p pre u \<Longrightarrow> reaches p (pre @ u) u"
  by (rule reaches_skipped_aux [OF reaches_start])

lemma shared_boundary_reached:
  assumes wr: "wrap_rule p tok bnd"
    and r: "reaches p s (w1 # t1 @ w2 # t2 @ rest)"
    and c: "isspace w1" "tok t1" "isspace w2" "tok t2"
  shows "\<exists>pre out. s = pre @ w1 # t1 @ w2 # t2 @ rest \<and> ins_bt pre out \<and>
           re_sub p s = out @ w1 # backtick # t1 @ backtick # w2 # t2 @ re_sub p rest"
proof -
  have "\<forall>c\<in>set t2. \<not> isspace c" using wrap_rule_tokD [OF wr c(4)] by simp
  from re_sub_nonspace [OF wr this]
    re_sub_hit [OF wr c(1,2) wrap_rule_spaceD [OF wr c(3)]]
  have "re_sub p (w1 # t1 @ w2 # t2 @ rest)
          = w1 # backtick # t1 @ backtick # w2 # t2 @ re_sub p rest"
    by simp
  with reaches_out [OF wr r] show ?thesis by auto
qed

section \<open>The claims about \<^verbatim>\<open>fix_doc_line\<close>\<close>

lemmas eval_defs =
  fix_doc_line_def is_doc_line_def lstrip_def str_def isspace_def
  pattern1_def pattern2_def pattern3_def re_match_def backtick_def
  re_sub.simps char_defs call_token_def snake_token_def pascal_token_def snake_boundary_def

lemma rules_cases:
  assumes "p \<in> {pattern1, pattern2, pattern3}"
  obtains tok bnd where "wrap_rule p tok bnd"
  using assms wrap_rule_pattern1 wrap_rule_pattern2 wrap_rule_pattern3 by auto

lemma re_match_shorter:
  assumes "p \<in> {pattern1, pattern2, pattern3}" "re_match p s = Some (gs, rest)"
  shows "length rest < length s"
proof -
  from assms(1) obtain tok bnd where "wrap_rule p tok bnd" by (rule rules_cases)
  from wrap_rule_matchD [OF this assms(2)] show ?thesis by auto
qed

subsection \<open>Scenario 1\<close>

text \<open>
  C1. The documentation line \<^verbatim>\<open>/// Call fish_add_path() to update the path.\<close> comes back
  with the call \<^verbatim>\<open>fish_add_path()\<close> between single backticks and nothing else changed: rule 1
  wraps the call, and rule 2 does not wrap \<^verbatim>\<open>fish_add_path\<close> again, since the backtick before
  it is not whitespace.
\<close>

theorem C1_scenario_call_like:
  "fix_doc_line (str ''/// Call fish_add_path() to update the path.'')
     = str ''/// Call `fish_add_path()` to update the path.''"
  by (simp add: eval_defs)

subsection \<open>Running the annotator twice\<close>

text \<open>
  C2, as the specification states it, is that \<open>fix_doc_line\<close> is idempotent on every line.
  It is not: in \<^verbatim>\<open>/// a foo_bar baz_qux.\<close> the first run wraps \<^verbatim>\<open>foo_bar\<close> only, and the
  second run then wraps \<^verbatim>\<open>baz_qux\<close>.
\<close>

theorem C2_idempotence_counterexample:
  "fix_doc_line (fix_doc_line (str ''/// a foo_bar baz_qux.''))
     \<noteq> fix_doc_line (str ''/// a foo_bar baz_qux.'')"
  by (simp add: eval_defs)

text \<open>
  C2, amended. \<open>fix_doc_line\<close> applied to its own output changes nothing, for every line
  that is not a documentation line, and for every documentation line in which no match of
  a rule ends with the character another match of the same rule begins with.
\<close>

theorem C2_idempotent_without_shared_boundary:
  assumes ns: "is_doc_line line \<longrightarrow>
     noshare pattern1 line \<and> noshare pattern2 line \<and> noshare pattern3 line"
  shows "fix_doc_line (fix_doc_line line) = fix_doc_line line"
proof (cases "is_doc_line line")
  case False
  then show ?thesis by (simp add: fix_doc_line_def)
next
  case True
  with ns have 1: "noshare pattern1 line" and 2: "noshare pattern2 line"
    and 3: "noshare pattern3 line" by simp_all
  define l1 where "l1 = re_sub pattern1 line"
  define l2 where "l2 = re_sub pattern2 l1"
  define l3 where "l3 = re_sub pattern3 l2"
  have i1: "ins_bt line l1" unfolding l1_def
    by (rule wraps_ins_bt [OF wraps_re_sub [OF wrap_rule_pattern1]])
  have i2: "ins_bt l1 l2" unfolding l2_def
    by (rule wraps_ins_bt [OF wraps_re_sub [OF wrap_rule_pattern2]])
  have i3: "ins_bt l2 l3" unfolding l3_def
    by (rule wraps_ins_bt [OF wraps_re_sub [OF wrap_rule_pattern3]])
  have h1: "nohit pattern1 l3"
    using nohit_re_sub [OF wrap_rule_pattern1 1]
    by (fold l1_def) (intro nohit_transfer [OF wrap_rule_pattern1 i3]
         nohit_transfer [OF wrap_rule_pattern1 i2])
  have "noshare pattern2 l1" by (rule noshare_transfer [OF wrap_rule_pattern2 i1 2])
  from nohit_re_sub [OF wrap_rule_pattern2 this]
  have h2: "nohit pattern2 l3"
    by (fold l2_def) (rule nohit_transfer [OF wrap_rule_pattern2 i3])
  have "noshare pattern3 l2"
    by (intro noshare_transfer [OF wrap_rule_pattern3 i2]
          noshare_transfer [OF wrap_rule_pattern3 i1] 3)
  from nohit_re_sub [OF wrap_rule_pattern3 this]
  have h3: "nohit pattern3 l3" by (fold l3_def)
  have l3: "fix_doc_line line = l3"
    using True by (simp add: fix_doc_line_def l1_def l2_def l3_def)
  show ?thesis
    unfolding l3 by (simp add: fix_doc_line_def nohit_fix h1 h2 h3)
qed

theorem C2_idempotent_without_shared_boundary_witness:
  "is_doc_line (str ''/// Call fish_add_path() to update the path.'') \<and>
   noshare pattern1 (str ''/// Call fish_add_path() to update the path.'') \<and>
   noshare pattern2 (str ''/// Call fish_add_path() to update the path.'') \<and>
   noshare pattern3 (str ''/// Call fish_add_path() to update the path.'') \<and>
   fix_doc_line (fix_doc_line (str ''/// Call fish_add_path() to update the path.''))
     = fix_doc_line (str ''/// Call fish_add_path() to update the path.'')"
proof -
  have 0: "is_doc_line (str ''/// Call fish_add_path() to update the path.'')"
    by (simp add: eval_defs)
  have 1: "noshare pattern1 (str ''/// Call fish_add_path() to update the path.'')"
    by (simp add: eval_defs)
  have 2: "noshare pattern2 (str ''/// Call fish_add_path() to update the path.'')"
    by (simp add: eval_defs)
  have 3: "noshare pattern3 (str ''/// Call fish_add_path() to update the path.'')"
    by (simp add: eval_defs)
  from 0 1 2 3
    C2_idempotent_without_shared_boundary [of "str ''/// Call fish_add_path() to update the path.''"]
  show ?thesis by simp
qed

subsection \<open>Rule 2: snake-case tokens\<close>

text \<open>
  C3, as the specification states it, has rule 2 wrap a token exactly when the token has
  the stated shape, with an underscore separating two alphanumeric runs, and stands between
  a whitespace character and a boundary character. Both directions fail. In
  \<^verbatim>\<open>/// calls __init__ here\<close> rule 2 wraps \<^verbatim>\<open>__init__\<close>, which has one alphanumeric run. In
  \<^verbatim>\<open>/// use foo_bar baz_qux now\<close> it leaves \<^verbatim>\<open>baz_qux\<close> as it is, although the token meets
  every condition: the whitespace before it closed the match of \<^verbatim>\<open>foo_bar\<close>.
\<close>

theorem C3_snake_rule_counterexample:
  "fix_doc_line (str ''/// calls __init__ here'') = str ''/// calls `__init__` here'' \<and>
   re_sub pattern2 (str ''/// calls __init__ here'') = str ''/// calls `__init__` here'' \<and>
   \<not> spec_snake_token (str ''__init__'') \<and>
   fix_doc_line (str ''/// use foo_bar baz_qux now'') = str ''/// use `foo_bar` baz_qux now'' \<and>
   re_sub pattern2 (str ''/// use foo_bar baz_qux now'') = str ''/// use `foo_bar` baz_qux now'' \<and>
   spec_snake_token (str ''baz_qux'') \<and> isspace 32"
  by (simp add: eval_defs spec_snake_token_def)

text \<open>
  C3, amended. Rule 2 scans the line, as rule 1 left it, from its first character. At a
  position the scan reaches, it wraps the token that follows exactly when the text there
  is one whitespace character, then a token that begins with a lowercase letter or
  underscore, consists of lowercase letters, digits and underscores and has an underscore
  that is neither its first nor its last character, then whitespace or one of
  \<^verbatim>\<open>. , ; ) ]\<close>: then the output has the token between two backticks, the characters
  before and after it kept, and the scan goes on after the boundary character; otherwise
  the character at the position is copied and the scan goes on after it. The line
  \<^verbatim>\<open>/// See also my_helper_fn for details.\<close> becomes
  \<^verbatim>\<open>/// See also `my_helper_fn` for details.\<close>
\<close>

theorem C3_snake_rule:
  "(re_match pattern2 u = Some (gs, r) \<longleftrightarrow>
     (\<exists>w t b. gs = [[w], t, [b]] \<and> u = w # t @ b # r \<and>
        isspace w \<and> snake_token t \<and> snake_boundary b)) \<and>
   (is_doc_line line \<longrightarrow>
      fix_doc_line line = re_sub pattern3 (re_sub pattern2 (re_sub pattern1 line))) \<and>
   (reaches pattern2 s (w # t @ b # rest) \<and> isspace w \<and> snake_token t \<and> snake_boundary b \<longrightarrow>
      reaches pattern2 s rest \<and>
      (\<exists>pre out. s = pre @ w # t @ b # rest \<and> ins_bt pre out \<and>
         re_sub pattern2 s = out @ w # backtick # t @ backtick # b # re_sub pattern2 rest)) \<and>
   (reaches pattern2 s (x # xs) \<and>
      \<not> (\<exists>w t b rest. x # xs = w # t @ b # rest \<and>
            isspace w \<and> snake_token t \<and> snake_boundary b) \<longrightarrow>
      reaches pattern2 s xs \<and>
      (\<exists>pre out. s = pre @ x # xs \<and> ins_bt pre out \<and>
         re_sub pattern2 s = out @ x # re_sub pattern2 xs)) \<and>
   fix_doc_line (str ''/// See also my_helper_fn for details.'')
     = str ''/// See also `my_helper_fn` for details.''"
proof (intro conjI impI)
  show "re_match pattern2 u = Some (gs, r) \<longleftrightarrow>
     (\<exists>w t b. gs = [[w], t, [b]] \<and> u = w # t @ b # r \<and>
        isspace w \<and> snake_token t \<and> snake_boundary b)"
    by (rule re_match_pattern2)
  show "fix_doc_line (str ''/// See also my_helper_fn for details.'')
     = str ''/// See also `my_helper_fn` for details.''"
    by (simp add: eval_defs)
next
  assume "is_doc_line line"
  then show "fix_doc_line line = re_sub pattern3 (re_sub pattern2 (re_sub pattern1 line))"
    by (simp add: fix_doc_line_def)
next
  assume a: "reaches pattern2 s (w # t @ b # rest) \<and> isspace w \<and> snake_token t \<and>
    snake_boundary b"
  with scan_hit [OF wrap_rule_pattern2, of s w t b rest]
  show "reaches pattern2 s rest"
    and "\<exists>pre out. s = pre @ w # t @ b # rest \<and> ins_bt pre out \<and>
         re_sub pattern2 s = out @ w # backtick # t @ backtick # b # re_sub pattern2 rest"
    by simp_all
next
  assume a: "reaches pattern2 s (x # xs) \<and>
      \<not> (\<exists>w t b rest. x # xs = w # t @ b # rest \<and>
            isspace w \<and> snake_token t \<and> snake_boundary b)"
  with scan_miss [OF wrap_rule_pattern2, of s x xs]
  show "reaches pattern2 s xs"
    and "\<exists>pre out. s = pre @ x # xs \<and> ins_bt pre out \<and>
         re_sub pattern2 s = out @ x # re_sub pattern2 xs"
    by simp_all
qed

theorem C3_snake_rule_witness:
  "is_doc_line (str ''/// See also my_helper_fn for details.'') \<and>
   reaches pattern2 (str ''/// See also my_helper_fn for details.'')
     (32 # str ''my_helper_fn'' @ 32 # str ''for details.'') \<and>
   isspace 32 \<and> snake_token (str ''my_helper_fn'') \<and> snake_boundary 32 \<and>
   reaches pattern2 (str ''/// See also my_helper_fn for details.'') (str ''for details.'') \<and>
   (\<exists>pre out. str ''/// See also my_helper_fn for details.''
        = pre @ 32 # str ''my_helper_fn'' @ 32 # str ''for details.'' \<and> ins_bt pre out \<and>
      re_sub pattern2 (str ''/// See also my_helper_fn for details.'')
        = out @ 32 # backtick # str ''my_helper_fn'' @ backtick # 32 #
            re_sub pattern2 (str ''for details.'')) \<and>
   reaches pattern2 (str ''/// See also my_helper_fn for details.'')
     (str ''// See also my_helper_fn for details.'') \<and>
   snake_token (str ''__init__'') \<and> snake_token (str ''a__b'') \<and> snake_token (str ''a__'') \<and>
   snake_token (str ''___'') \<and> \<not> snake_token (str ''_a'') \<and> \<not> snake_token (str ''a_'')"
proof -
  have d: "is_doc_line (str ''/// See also my_helper_fn for details.'')"
    by (simp add: eval_defs)
  have e: "str ''/// See also my_helper_fn for details.''
      = str ''/// See also'' @ 32 # str ''my_helper_fn'' @ 32 # str ''for details.''"
    by (simp add: str_def)
  have "skipped pattern2 (str ''/// See also'')
      (32 # str ''my_helper_fn'' @ 32 # str ''for details.'')"
    by (simp add: eval_defs)
  then have r: "reaches pattern2 (str ''/// See also my_helper_fn for details.'')
     (32 # str ''my_helper_fn'' @ 32 # str ''for details.'')"
    unfolding e by (rule reaches_skipped)
  have c: "isspace 32" "snake_token (str ''my_helper_fn'')" "snake_boundary 32"
    by (simp_all add: eval_defs)
  have r0: "reaches pattern2 (str ''/// See also my_helper_fn for details.'')
     (47 # str ''// See also my_helper_fn for details.'')"
    using reaches_start [of pattern2 "str ''/// See also my_helper_fn for details.''"]
    by (simp add: str_def)
  have n: "\<not> (\<exists>w t b rest. 47 # str ''// See also my_helper_fn for details.'' = w # t @ b # rest \<and>
            isspace w \<and> snake_token t \<and> snake_boundary b)"
    by (simp add: isspace_def)
  have t: "snake_token (str ''__init__'') \<and> snake_token (str ''a__b'') \<and>
    snake_token (str ''a__'') \<and> snake_token (str ''___'') \<and> \<not> snake_token (str ''_a'') \<and>
    \<not> snake_token (str ''a_'')"
    by (simp add: eval_defs)
  note inst = C3_snake_rule [where s = "str ''/// See also my_helper_fn for details.''"
      and w = 32 and t = "str ''my_helper_fn''" and b = 32 and rest = "str ''for details.''"
      and x = 47 and xs = "str ''// See also my_helper_fn for details.''"]
  from inst r c have hit: "reaches pattern2 (str ''/// See also my_helper_fn for details.'')
       (str ''for details.'') \<and>
   (\<exists>pre out. str ''/// See also my_helper_fn for details.''
        = pre @ 32 # str ''my_helper_fn'' @ 32 # str ''for details.'' \<and> ins_bt pre out \<and>
      re_sub pattern2 (str ''/// See also my_helper_fn for details.'')
        = out @ 32 # backtick # str ''my_helper_fn'' @ backtick # 32 #
            re_sub pattern2 (str ''for details.''))"
    by blast
  from inst r0 n have miss: "reaches pattern2 (str ''/// See also my_helper_fn for details.'')
     (str ''// See also my_helper_fn for details.'')"
    by blast
  from d r c hit miss t show ?thesis by blast
qed

subsection \<open>Rule 3: Pascal-case tokens\<close>

text \<open>
  C5, as the specification states it, has rule 3 wrap a token exactly when the token starts
  with an uppercase letter, consists of letters and digits, has at least two uppercase
  letters and stands between two whitespace characters. The line
  \<^verbatim>\<open>/// a FooBar BazQux b\<close> becomes \<^verbatim>\<open>/// a `FooBar` BazQux b\<close>: \<^verbatim>\<open>BazQux\<close> meets every
  condition and is not wrapped, since the whitespace before it closed the match of
  \<^verbatim>\<open>FooBar\<close>.
\<close>

theorem C5_pascal_rule_counterexample:
  "fix_doc_line (str ''/// a FooBar BazQux b'') = str ''/// a `FooBar` BazQux b'' \<and>
   re_sub pattern3 (str ''/// a FooBar BazQux b'') = str ''/// a `FooBar` BazQux b'' \<and>
   pascal_token (str ''BazQux'') \<and> isspace 32"
  by (simp add: eval_defs)

text \<open>
  C5, amended. Rule 3 scans the line, as rules 1 and 2 left it, from its first character.
  At a position the scan reaches, it wraps the token that follows exactly when the text
  there is one whitespace character, then a token that starts with an uppercase letter,
  consists of letters and digits and has at least two uppercase letters, then one
  whitespace character: then the output has the token between two backticks, the
  whitespace before and after it kept, and the scan goes on after the second whitespace
  character; otherwise the character at the position is copied and the scan goes on after
  it. The line \<^verbatim>\<open>/// A Name is simple.\<close> is returned unchanged, and
  \<^verbatim>\<open>/// Returns a PathBuf value.\<close> becomes \<^verbatim>\<open>/// Returns a `PathBuf` value.\<close>
\<close>

theorem C5_pascal_rule:
  "(re_match pattern3 u = Some (gs, r) \<longleftrightarrow>
     (\<exists>w t b. gs = [[w], t, [b]] \<and> u = w # t @ b # r \<and>
        isspace w \<and> pascal_token t \<and> isspace b)) \<and>
   (is_doc_line line \<longrightarrow>
      fix_doc_line line = re_sub pattern3 (re_sub pattern2 (re_sub pattern1 line))) \<and>
   (reaches pattern3 s (w # t @ b # rest) \<and> isspace w \<and> pascal_token t \<and> isspace b \<longrightarrow>
      reaches pattern3 s rest \<and>
      (\<exists>pre out. s = pre @ w # t @ b # rest \<and> ins_bt pre out \<and>
         re_sub pattern3 s = out @ w # backtick # t @ backtick # b # re_sub pattern3 rest)) \<and>
   (reaches pattern3 s (x # xs) \<and>
      \<not> (\<exists>w t b rest. x # xs = w # t @ b # rest \<and>
            isspace w \<and> pascal_token t \<and> isspace b) \<longrightarrow>
      reaches pattern3 s xs \<and>
      (\<exists>pre out. s = pre @ x # xs \<and> ins_bt pre out \<and>
         re_sub pattern3 s = out @ x # re_sub pattern3 xs)) \<and>
   fix_doc_line (str ''/// A Name is simple.'') = str ''/// A Name is simple.'' \<and>
   fix_doc_line (str ''/// Returns a PathBuf value.'') = str ''/// Returns a `PathBuf` value.''"
proof (intro conjI impI)
  show "re_match pattern3 u = Some (gs, r) \<longleftrightarrow>
     (\<exists>w t b. gs = [[w], t, [b]] \<and> u = w # t @ b # r \<and>
        isspace w \<and> pascal_token t \<and> isspace b)"
    by (rule re_match_pattern3)
  show "fix_doc_line (str ''/// A Name is simple.'') = str ''/// A Name is simple.''"
    by (simp add: eval_defs)
  show "fix_doc_line (str ''/// Returns a PathBuf value.'')
      = str ''/// Returns a `PathBuf` value.''"
    by (simp add: eval_defs)
next
  assume "is_doc_line line"
  then show "fix_doc_line line = re_sub pattern3 (re_sub pattern2 (re_sub pattern1 line))"
    by (simp add: fix_doc_line_def)
next
  assume a: "reaches pattern3 s (w # t @ b # rest) \<and> isspace w \<and> pascal_token t \<and> isspace b"
  with scan_hit [OF wrap_rule_pattern3, of s w t b rest]
  show "reaches pattern3 s rest"
    and "\<exists>pre out. s = pre @ w # t @ b # rest \<and> ins_bt pre out \<and>
         re_sub pattern3 s = out @ w # backtick # t @ backtick # b # re_sub pattern3 rest"
    by simp_all
next
  assume a: "reaches pattern3 s (x # xs) \<and>
      \<not> (\<exists>w t b rest. x # xs = w # t @ b # rest \<and>
            isspace w \<and> pascal_token t \<and> isspace b)"
  with scan_miss [OF wrap_rule_pattern3, of s x xs]
  show "reaches pattern3 s xs"
    and "\<exists>pre out. s = pre @ x # xs \<and> ins_bt pre out \<and>
         re_sub pattern3 s = out @ x # re_sub pattern3 xs"
    by simp_all
qed

theorem C5_pascal_rule_witness:
  "is_doc_line (str ''/// Returns a PathBuf value.'') \<and>
   reaches pattern3 (str ''/// Returns a PathBuf value.'')
     (32 # str ''PathBuf'' @ 32 # str ''value.'') \<and>
   isspace 32 \<and> pascal_token (str ''PathBuf'') \<and>
   reaches pattern3 (str ''/// Returns a PathBuf value.'') (str ''value.'') \<and>
   (\<exists>pre out. str ''/// Returns a PathBuf value.''
        = pre @ 32 # str ''PathBuf'' @ 32 # str ''value.'' \<and> ins_bt pre out \<and>
      re_sub pattern3 (str ''/// Returns a PathBuf value.'')
        = out @ 32 # backtick # str ''PathBuf'' @ backtick # 32 #
            re_sub pattern3 (str ''value.'')) \<and>
   reaches pattern3 (str ''/// Returns a PathBuf value.'') (str ''// Returns a PathBuf value.'') \<and>
   \<not> pascal_token (str ''Name'')"
proof -
  have d: "is_doc_line (str ''/// Returns a PathBuf value.'')"
    by (simp add: eval_defs)
  have e: "str ''/// Returns a PathBuf value.''
      = str ''/// Returns a'' @ 32 # str ''PathBuf'' @ 32 # str ''value.''"
    by (simp add: str_def)
  have "skipped pattern3 (str ''/// Returns a'') (32 # str ''PathBuf'' @ 32 # str ''value.'')"
    by (simp add: eval_defs)
  then have r: "reaches pattern3 (str ''/// Returns a PathBuf value.'')
     (32 # str ''PathBuf'' @ 32 # str ''value.'')"
    unfolding e by (rule reaches_skipped)
  have c: "isspace 32" "pascal_token (str ''PathBuf'')" "\<not> pascal_token (str ''Name'')"
    by (simp_all add: eval_defs)
  have r0: "reaches pattern3 (str ''/// Returns a PathBuf value.'')
     (47 # str ''// Returns a PathBuf value.'')"
    using reaches_start [of pattern3 "str ''/// Returns a PathBuf value.''"]
    by (simp add: str_def)
  have n: "\<not> (\<exists>w t b rest. 47 # str ''// Returns a PathBuf value.'' = w # t @ b # rest \<and>
            isspace w \<and> pascal_token t \<and> isspace b)"
    by (simp add: isspace_def)
  note inst = C5_pascal_rule [where s = "str ''/// Returns a PathBuf value.''"
      and w = 32 and t = "str ''PathBuf''" and b = 32 and rest = "str ''value.''"
      and x = 47 and xs = "str ''// Returns a PathBuf value.''"]
  from inst r c have hit: "reaches pattern3 (str ''/// Returns a PathBuf value.'')
       (str ''value.'') \<and>
   (\<exists>pre out. str ''/// Returns a PathBuf value.''
        = pre @ 32 # str ''PathBuf'' @ 32 # str ''value.'' \<and> ins_bt pre out \<and>
      re_sub pattern3 (str ''/// Returns a PathBuf value.'')
        = out @ 32 # backtick # str ''PathBuf'' @ backtick # 32 #
            re_sub pattern3 (str ''value.''))"
    by blast
  from inst r0 n have miss: "reaches pattern3 (str ''/// Returns a PathBuf value.'')
     (str ''// Returns a PathBuf value.'')"
    by blast
  from d r c hit miss show ?thesis by blast
qed

subsection \<open>Only backticks are added\<close>



subsection \<open>A boundary character serves one match only\<close>

text \<open>
  C10, as stated, is that of two tokens of a rule separated by exactly one whitespace
  character only the first is wrapped. In \<^verbatim>\<open>/// x_y a_b c_d.\<close> the tokens \<^verbatim>\<open>a_b\<close> and
  \<^verbatim>\<open>c_d\<close> are such a pair, and the line becomes \<^verbatim>\<open>/// `x_y` a_b `c_d`.\<close>: the second is
  wrapped and the first is not, since the whitespace before \<^verbatim>\<open>a_b\<close> closed the match of
  \<^verbatim>\<open>x_y\<close>.
\<close>

theorem C10_shared_boundary_counterexample:
  "fix_doc_line (str ''/// x_y a_b c_d.'') = str ''/// `x_y` a_b `c_d`.'' \<and>
   re_sub pattern2 (str ''/// x_y a_b c_d.'') = str ''/// `x_y` a_b `c_d`.'' \<and>
   snake_token (str ''a_b'') \<and> snake_token (str ''c_d'') \<and> isspace 32 \<and> snake_boundary 46"
  by (simp add: eval_defs)

text \<open>
  C10, amended. Within one pass of a rule over the line (as the earlier rules left it),
  when two tokens of that rule are separated by exactly one whitespace character and the
  scan reaches the whitespace before the first of them, only the first is wrapped: the
  whitespace between them is the closing boundary of the first match and the scan goes on
  after it, so the second token is copied as it is. The line \<^verbatim>\<open>/// a foo_bar baz_qux.\<close>
  becomes \<^verbatim>\<open>/// a `foo_bar` baz_qux.\<close>
\<close>

theorem C10_shared_boundary_consumed:
  "(reaches pattern1 s (w1 # t1 @ w2 # t2 @ rest) \<and>
      isspace w1 \<and> call_token t1 \<and> isspace w2 \<and> call_token t2 \<longrightarrow>
      (\<exists>pre out. s = pre @ w1 # t1 @ w2 # t2 @ rest \<and> ins_bt pre out \<and>
         re_sub pattern1 s
           = out @ w1 # backtick # t1 @ backtick # w2 # t2 @ re_sub pattern1 rest)) \<and>
   (reaches pattern2 s (w1 # t1 @ w2 # t2 @ rest) \<and>
      isspace w1 \<and> snake_token t1 \<and> isspace w2 \<and> snake_token t2 \<longrightarrow>
      (\<exists>pre out. s = pre @ w1 # t1 @ w2 # t2 @ rest \<and> ins_bt pre out \<and>
         re_sub pattern2 s
           = out @ w1 # backtick # t1 @ backtick # w2 # t2 @ re_sub pattern2 rest)) \<and>
   (reaches pattern3 s (w1 # t1 @ w2 # t2 @ rest) \<and>
      isspace w1 \<and> pascal_token t1 \<and> isspace w2 \<and> pascal_token t2 \<longrightarrow>
      (\<exists>pre out. s = pre @ w1 # t1 @ w2 # t2 @ rest \<and> ins_bt pre out \<and>
         re_sub pattern3 s
           = out @ w1 # backtick # t1 @ backtick # w2 # t2 @ re_sub pattern3 rest)) \<and>
   (is_doc_line line \<longrightarrow>
      fix_doc_line line = re_sub pattern3 (re_sub pattern2 (re_sub pattern1 line))) \<and>
   fix_doc_line (str ''/// a foo_bar baz_qux.'') = str ''/// a `foo_bar` baz_qux.''"
  using shared_boundary_reached [OF wrap_rule_pattern1, of s w1 t1 w2 t2 rest]
    shared_boundary_reached [OF wrap_rule_pattern2, of s w1 t1 w2 t2 rest]
    shared_boundary_reached [OF wrap_rule_pattern3, of s w1 t1 w2 t2 rest]
  by (simp add: fix_doc_line_def) (simp add: eval_defs)

theorem C10_shared_boundary_consumed_witness:
  "is_doc_line (str ''/// a foo_bar baz_qux.'') \<and>
   reaches pattern2 (str ''/// a foo_bar baz_qux.'')
     (32 # str ''foo_bar'' @ 32 # str ''baz_qux'' @ str ''.'') \<and>
   isspace 32 \<and> snake_token (str ''foo_bar'') \<and> snake_token (str ''baz_qux'') \<and>
   (\<exists>pre out. str ''/// a foo_bar baz_qux.''
        = pre @ 32 # str ''foo_bar'' @ 32 # str ''baz_qux'' @ str ''.'' \<and> ins_bt pre out \<and>
      re_sub pattern2 (str ''/// a foo_bar baz_qux.'')
        = out @ 32 # backtick # str ''foo_bar'' @ backtick # 32 # str ''baz_qux'' @
            re_sub pattern2 (str ''.''))"
proof -
  have d: "is_doc_line (str ''/// a foo_bar baz_qux.'')"
    by (simp add: eval_defs)
  have e: "str ''/// a foo_bar baz_qux.''
      = str ''/// a'' @ 32 # str ''foo_bar'' @ 32 # str ''baz_qux'' @ str ''.''"
    by (simp add: str_def)
  have "skipped pattern2 (str ''/// a'') (32 # str ''foo_bar'' @ 32 # str ''baz_qux'' @ str ''.'')"
    by (simp add: eval_defs)
  then have r: "reaches pattern2 (str ''/// a foo_bar baz_qux.'')
     (32 # str ''foo_bar'' @ 32 # str ''baz_qux'' @ str ''.'')"
    unfolding e by (rule reaches_skipped)
  have c: "isspace 32" "snake_token (str ''foo_bar'')" "snake_token (str ''baz_qux'')"
    by (simp_all add: eval_defs)
  from C10_shared_boundary_consumed [where s = "str ''/// a foo_bar baz_qux.''"
      and ?w1.0 = 32 and ?t1.0 = "str ''foo_bar''" and ?w2.0 = 32 and ?t2.0 = "str ''baz_qux''"
      and rest = "str ''.''"] r c
  have "\<exists>pre out. str ''/// a foo_bar baz_qux.''
        = pre @ 32 # str ''foo_bar'' @ 32 # str ''baz_qux'' @ str ''.'' \<and> ins_bt pre out \<and>
      re_sub pattern2 (str ''/// a foo_bar baz_qux.'')
        = out @ 32 # backtick # str ''foo_bar'' @ backtick # 32 # str ''baz_qux'' @
            re_sub pattern2 (str ''.'')"
    by blast
  with d r c show ?thesis by blast
qed

subsection \<open>Lines that are not documentation comments\<close>

text \<open>
  C4. A line that, after its leading whitespace is dropped, does not start with the three
  characters \<^verbatim>\<open>///\<close> is returned as it is: no rule is applied to it.
\<close>

theorem C4_non_doc_line_identity:
  "\<not> startswith (lstrip line) (str ''///'') \<Longrightarrow> fix_doc_line line = line"
  by (simp add: fix_doc_line_def is_doc_line_def)

theorem C4_non_doc_line_identity_witness:
  "\<not> startswith (lstrip (str ''// This is not a doc comment with fish_add_path.'')) (str ''///'')
   \<and> fix_doc_line (str ''// This is not a doc comment with fish_add_path.'')
       = str ''// This is not a doc comment with fish_add_path.''"
proof -
  have h: "\<not> startswith (lstrip (str ''// This is not a doc comment with fish_add_path.''))
             (str ''///'')"
    by (simp add: lstrip_def str_def isspace_def)
  show ?thesis
    using h C4_non_doc_line_identity [OF h] by simp
qed

section \<open>The claims about the files\<close>

subsection \<open>Lines and their order\<close>

text \<open>
  C7. For every file, the inner loop returns one new line for each line read, in the same
  order, each the image of its line under \<open>fix_doc_line\<close>; the text written, read again,
  splits into exactly these lines, so the rewritten file has as many lines as the input;
  and \<open>fix_doc_line\<close> neither adds nor removes a line terminator: a line and its image
  hold the same number of \<^verbatim>\<open>\n\<close> and of \<^verbatim>\<open>\r\<close> and end with the same character.
\<close>

theorem C7_lines_preserved:
  assumes "linesep = [10] \<or> linesep = [13, 10]"
    and "process_lines (readlines content) [] 0 = (new_lines, file_changes)"
  shows "length new_lines = length (readlines content) \<and>
         (\<forall>i < length (readlines content). new_lines ! i = fix_doc_line (readlines content ! i)) \<and>
         readlines (writelines linesep new_lines) = new_lines \<and>
         length (readlines (writelines linesep new_lines)) = length (readlines content) \<and>
         count_list (fix_doc_line line) 10 = count_list line 10 \<and>
         count_list (fix_doc_line line) 13 = count_list line 13 \<and>
         (line \<noteq> [] \<longrightarrow> last (fix_doc_line line) = last line)"
proof -
  from assms(2) have n: "new_lines = map fix_doc_line (readlines content)"
    by (simp add: process_lines_eq)
  have "readlines (writelines linesep new_lines) = new_lines"
    unfolding n by (rule readlines_written [OF assms(1)])
  moreover have "count_list (fix_doc_line line) 10 = count_list line 10"
    "count_list (fix_doc_line line) 13 = count_list line 13"
    by (simp_all add: fix_doc_line_count backtick_def)
  ultimately show ?thesis
    using n by (simp add: fix_doc_line_last)
qed

theorem C7_lines_preserved_witness:
  "process_lines (readlines (str ''/// See foo_bar.'' @ [13, 10] @ str ''fn f() {}'' @ [10])) [] 0
     = ([str ''/// See `foo_bar`.'' @ [10], str ''fn f() {}'' @ [10]], 1) \<and>
   readlines (str ''/// See foo_bar.'' @ [13, 10] @ str ''fn f() {}'' @ [10])
     = [str ''/// See foo_bar.'' @ [10], str ''fn f() {}'' @ [10]] \<and>
   readlines (writelines [13, 10] [str ''/// See `foo_bar`.'' @ [10], str ''fn f() {}'' @ [10]])
     = [str ''/// See `foo_bar`.'' @ [10], str ''fn f() {}'' @ [10]] \<and>
   last (fix_doc_line (str ''/// See foo_bar.'' @ [10])) = 10"
proof -
  have p: "process_lines (readlines (str ''/// See foo_bar.'' @ [13, 10] @ str ''fn f() {}'' @ [10])) [] 0
     = ([str ''/// See `foo_bar`.'' @ [10], str ''fn f() {}'' @ [10]], 1)"
    by (simp add: eval_defs readlines_def)
  from C7_lines_preserved [OF disjI2 [OF refl] p, of "str ''/// See foo_bar.'' @ [10]"] p
  show ?thesis
    by (simp add: str_def readlines_def)
qed

subsection \<open>Line terminators\<close>

text \<open>
  C8, as the specification states it, is that the rewritten file keeps the line-terminator
  convention of the input. It does not: the script reads and writes in text mode, so on a
  system whose \<^verbatim>\<open>os.linesep\<close> is \<^verbatim>\<open>\n\<close> a file with \<^verbatim>\<open>\r\n\<close> terminators is written back with
  \<^verbatim>\<open>\n\<close> terminators.
\<close>

theorem C8_terminators_counterexample:
  "process_file [10] ''src/a.rs''
     \<lparr>files = [''src/a.rs'' \<mapsto> str ''/// a foo_bar b'' @ [13, 10]],
      writes = [], printed = [], total_changes = 0\<rparr>
   = Inr \<lparr>files = [''src/a.rs'' \<mapsto> str ''/// a `foo_bar` b'' @ [10]],
          writes = [''src/a.rs''], printed = [Updated ''src/a.rs'' 1], total_changes = 1\<rparr> \<and>
   line_terminators (str ''/// a foo_bar b'' @ [13, 10]) = [[13, 10]] \<and>
   line_terminators (str ''/// a `foo_bar` b'' @ [10]) = [[10]]"
  by (simp add: process_file_def readlines_def writelines_def write_text_def eval_defs)

text \<open>
  C8, amended. A rewritten file has as many line terminators as the input, and each of
  them is \<^verbatim>\<open>os.linesep\<close>: the terminators of the input are read as \<^verbatim>\<open>\n\<close> and every \<^verbatim>\<open>\n\<close> is
  written as \<^verbatim>\<open>os.linesep\<close>. So the convention of the input is kept exactly when the input
  used \<^verbatim>\<open>os.linesep\<close> throughout.
\<close>

theorem C8_terminators_are_linesep:
  assumes "linesep = [10] \<or> linesep = [13, 10]"
    and "files st file_path = Some content"
    and "process_file linesep file_path st = Inr st'"
    and "writes st' \<noteq> writes st"
  shows "\<exists>new_text. files st' file_path = Some new_text \<and>
           line_terminators new_text
             = replicate (length (line_terminators content)) linesep"
proof (cases "\<exists>line\<in>set (readlines content). fix_doc_line line \<noteq> line")
  case False
  then have "\<forall>line\<in>set (readlines content). fix_doc_line line = line" by simp
  from process_file_unchanged [OF assms(2) this, of linesep] assms(3,4)
  show ?thesis by simp
next
  case True
  from process_file_changed [OF assms(2) True, of linesep] assms(3)
  have "files st' file_path
          = Some (write_text linesep (concat (map fix_doc_line (readlines content))))"
    by (auto simp: writelines_def)
  moreover have "line_terminators (write_text linesep (concat (map fix_doc_line (readlines content))))
      = replicate (length (line_terminators content)) linesep"
    using line_terminators_write [OF assms(1) new_text_facts(1), of content]
    by (simp add: new_text_facts(2))
  ultimately show ?thesis by simp
qed

theorem C8_terminators_are_linesep_witness:
  "files \<lparr>files = [''src/a.rs'' \<mapsto> str ''/// a foo_bar b'' @ [13, 10]],
          writes = [], printed = [], total_changes = 0\<rparr> ''src/a.rs''
     = Some (str ''/// a foo_bar b'' @ [13, 10]) \<and>
   (\<exists>new_text.
      files \<lparr>files = [''src/a.rs'' \<mapsto> str ''/// a `foo_bar` b'' @ [10]],
             writes = [''src/a.rs''], printed = [Updated ''src/a.rs'' 1],
             total_changes = 1\<rparr> ''src/a.rs'' = Some new_text \<and>
      line_terminators new_text
        = replicate (length (line_terminators (str ''/// a foo_bar b'' @ [13, 10]))) [10])"
proof -
  let ?st = "\<lparr>files = [''src/a.rs'' \<mapsto> str ''/// a foo_bar b'' @ [13, 10]],
          writes = [], printed = [], total_changes = 0\<rparr>"
  let ?st' = "\<lparr>files = [''src/a.rs'' \<mapsto> str ''/// a `foo_bar` b'' @ [10]],
             writes = [''src/a.rs''], printed = [Updated ''src/a.rs'' 1],
             total_changes = 1\<rparr>"
  have f: "files ?st ''src/a.rs'' = Some (str ''/// a foo_bar b'' @ [13, 10])" by simp
  have p: "process_file [10] ''src/a.rs'' ?st = Inr ?st'"
    by (simp add: process_file_def readlines_def writelines_def write_text_def eval_defs)
  have w: "writes ?st' \<noteq> writes ?st" by simp
  from C8_terminators_are_linesep [OF disjI1 [OF refl] f p w] f show ?thesis by simp
qed

subsection \<open>Which files are written\<close>

text \<open>
  C9. A file all of whose lines \<open>fix_doc_line\<close> maps to themselves is not opened for
  writing: processing it leaves the whole state as it was. A file with a changed line is
  written once, with the new lines, and the count reported for it and added to the total
  is the number of its lines that changed. Over a whole run on distinct paths, the paths
  opened for writing are exactly those of the files with a changed line, and every other
  file is as it was.
\<close>

theorem C9_only_changed_files_written:
  "(files st file_path = Some content \<longrightarrow>
      (\<forall>line\<in>set (readlines content). fix_doc_line line = line) \<longrightarrow>
      process_file linesep file_path st = Inr st) \<and>
   (files st file_path = Some content \<longrightarrow>
      (\<exists>line\<in>set (readlines content). fix_doc_line line \<noteq> line) \<longrightarrow>
      process_file linesep file_path st =
        Inr (st\<lparr>files := (files st)(file_path \<mapsto>
                     writelines linesep (map fix_doc_line (readlines content))),
                writes := writes st @ [file_path],
                printed := printed st @ [Updated file_path
                  (length (filter (\<lambda>line. fix_doc_line line \<noteq> line) (readlines content)))],
                total_changes := total_changes st +
                  length (filter (\<lambda>line. fix_doc_line line \<noteq> line) (readlines content))\<rparr>)) \<and>
   (distinct rust_files \<longrightarrow> main linesep rust_files fs = Inr final \<longrightarrow>
      writes final = filter (file_changed fs) rust_files \<and>
      (\<forall>q. q \<notin> set (filter (file_changed fs) rust_files) \<longrightarrow> files final q = fs q))"
  using process_file_unchanged [of st file_path content linesep]
    process_file_changed [of st file_path content linesep]
    main_frame [of rust_files linesep fs final]
  by blast

theorem C9_only_changed_files_written_witness:
  "process_file [10] ''src/b.rs''
     \<lparr>files = [''src/b.rs'' \<mapsto> str ''// a foo_bar b'' @ [10]],
      writes = [], printed = [], total_changes = 0\<rparr>
   = Inr \<lparr>files = [''src/b.rs'' \<mapsto> str ''// a foo_bar b'' @ [10]],
          writes = [], printed = [], total_changes = 0\<rparr> \<and>
   process_file [10] ''src/a.rs''
     \<lparr>files = [''src/a.rs'' \<mapsto> str ''/// a foo_bar b'' @ [10]],
      writes = [], printed = [], total_changes = 0\<rparr>
   = Inr \<lparr>files = [''src/a.rs'' \<mapsto> str ''/// a `foo_bar` b'' @ [10]],
          writes = [''src/a.rs''], printed = [Updated ''src/a.rs'' 1], total_changes = 1\<rparr> \<and>
   writes (projr (main [10] [''src/a.rs'', ''src/b.rs'']
      [''src/a.rs'' \<mapsto> str ''/// a foo_bar b'' @ [10],
       ''src/b.rs'' \<mapsto> str ''// a foo_bar b'' @ [10]])) = [''src/a.rs'']"
proof -
  let ?fs = "[''src/a.rs'' \<mapsto> str ''/// a foo_bar b'' @ [10],
       ''src/b.rs'' \<mapsto> str ''// a foo_bar b'' @ [10]]"
  have ra: "readlines (str ''/// a foo_bar b'' @ [10]) = [str ''/// a foo_bar b'' @ [10]]"
    by (simp add: readlines_def str_def)
  have rb: "readlines (str ''// a foo_bar b'' @ [10]) = [str ''// a foo_bar b'' @ [10]]"
    by (simp add: readlines_def str_def)
  have fa: "fix_doc_line (str ''/// a foo_bar b'' @ [10]) = str ''/// a `foo_bar` b'' @ [10]"
    by (simp add: eval_defs)
  have fb: "fix_doc_line (str ''// a foo_bar b'' @ [10]) = str ''// a foo_bar b'' @ [10]"
    by (simp add: eval_defs)
  have m: "main [10] [''src/a.rs'', ''src/b.rs''] ?fs =
      Inr \<lparr>files = ?fs(''src/a.rs'' \<mapsto> str ''/// a `foo_bar` b'' @ [10]),
           writes = [''src/a.rs''],
           printed = [Updated ''src/a.rs'' 1, Total 1], total_changes = 1\<rparr>"
    by (simp add: main_def process_file_def ra rb fa fb writelines_def write_text_def)
       (simp add: str_def)
  have d: "distinct [''src/a.rs'', ''src/b.rs'']" by simp
  have ca: "file_changed ?fs ''src/a.rs''" by (simp add: file_changed_def ra fa) (simp add: str_def)
  have cb: "\<not> file_changed ?fs ''src/b.rs''" by (simp add: file_changed_def rb fb)
  from C9_only_changed_files_written [of
      "\<lparr>files = [''src/b.rs'' \<mapsto> str ''// a foo_bar b'' @ [10]],
        writes = [], printed = [], total_changes = 0\<rparr>" "''src/b.rs''"
      "str ''// a foo_bar b'' @ [10]" "[10]"]
  have 1: "process_file [10] ''src/b.rs''
     \<lparr>files = [''src/b.rs'' \<mapsto> str ''// a foo_bar b'' @ [10]],
      writes = [], printed = [], total_changes = 0\<rparr>
   = Inr \<lparr>files = [''src/b.rs'' \<mapsto> str ''// a foo_bar b'' @ [10]],
          writes = [], printed = [], total_changes = 0\<rparr>"
    by (simp add: rb fb)
  from C9_only_changed_files_written [of
      "\<lparr>files = [''src/a.rs'' \<mapsto> str ''/// a foo_bar b'' @ [10]],
        writes = [], printed = [], total_changes = 0\<rparr>" "''src/a.rs''"
      "str ''/// a foo_bar b'' @ [10]" "[10]"]
  have 2: "process_file [10] ''src/a.rs''
     \<lparr>files = [''src/a.rs'' \<mapsto> str ''/// a foo_bar b'' @ [10]],
      writes = [], printed = [], total_changes = 0\<rparr>
   = Inr \<lparr>files = [''src/a.rs'' \<mapsto> str ''/// a `foo_bar` b'' @ [10]],
          writes = [''src/a.rs''], printed = [Updated ''src/a.rs'' 1], total_changes = 1\<rparr>"
    by (simp add: ra fa writelines_def write_text_def) (simp add: str_def)
  from C9_only_changed_files_written [where rust_files = "[''src/a.rs'', ''src/b.rs'']"
      and linesep = "[10]" and fs = ?fs
      and final = "projr (main [10] [''src/a.rs'', ''src/b.rs''] ?fs)"] d m ca cb
  have 3: "writes (projr (main [10] [''src/a.rs'', ''src/b.rs''] ?fs)) = [''src/a.rs'']"
    by simp
  from 1 2 3 show ?thesis by simp
qed

end
